theory Spec2Isabelle
  imports
    Complex_Main
    "HOL-Library.Char_ord"
    "HOL-Library.List_Lexorder"
begin

section \<open>Python values used by \<open>analyze.py\<close>\<close>

text \<open>
  The analysis module works on lists of tokens (Python \<open>str\<close>), on \<open>set\<close>s of
  tokens, on \<open>Counter\<close>s and on dictionaries of numbers.

  \<^item> A token is a \<open>string\<close>. HOL characters are 8-bit, so the model covers the
    strings whose code points are below 256; there \<open>length\<close> is Python's \<open>len\<close> and
    the lexicographic order of \<open>List_Lexorder\<close> over \<open>Char_ord\<close> is Python's \<open><\<close> on \<open>str\<close>.
  \<^item> \<open>set(tokens)\<close> is \<open>set tokens\<close>, \<open>len\<close> of a set is \<open>card\<close>, and the truth value
    of a set is \<open>S \<noteq> {}\<close>.
  \<^item> A number is a \<open>rat\<close>: an \<open>int\<close> is itself, and a \<open>float\<close> is the rational number
    that is its exact binary value. \<open>a / b\<close> on two \<open>int\<close>s is Python's true division,
    the float nearest to the quotient; dividing by zero raises \<open>ZeroDivisionError\<close>,
    which the model returns as a value.
  \<^item> A dictionary whose keys depend on the input is an association list in insertion
    order; a dictionary literal with fixed keys that is returned on every path is a record.
\<close>

datatype error = ZeroDivisionError | KeyError

text \<open>Rounding to the nearest integer, a tie going to the even one.\<close>

definition round_half_even :: "'a::floor_ceiling \<Rightarrow> int" where
  "round_half_even x =
     (let f = \<lfloor>x\<rfloor>; d = x - of_int f
      in if d < 1 / 2 then f
         else if 1 / 2 < d then f + 1
         else if even f then f else f + 1)"

text \<open>
  A Python \<open>float\<close> is an IEEE 754 binary64 number: an integer of at most 53 bits times
  a power of two. \<open>binary_exponent x\<close> is the exponent \<open>e\<close> with \<open>2 ^ e \<le> x < 2 ^ (e + 1)\<close>
  of a positive \<open>x\<close>, and \<open>fl x\<close> is the float nearest to \<open>x\<close>, a tie going to the even
  53-bit integer: the result of every correctly rounded float operation whose exact
  result is \<open>x\<close>. The exponent range of binary64 is not modelled: the numbers of this
  module are counts below \<open>2 ^ 53\<close>, their quotients and percentages.
\<close>

function binary_exponent :: "rat \<Rightarrow> int" where
  "binary_exponent x =
     (if x \<le> 0 then 0
      else if 2 \<le> x then binary_exponent (x / 2) + 1
      else if x < 1 then binary_exponent (x * 2) - 1
      else 0)"
  by pat_completeness auto
termination
proof (relation "measure (\<lambda>x. if 1 \<le> x then nat \<lfloor>x\<rfloor> else nat \<lfloor>1 / x\<rfloor> + 1)")
  show "wf (measure (\<lambda>x::rat. if 1 \<le> x then nat \<lfloor>x\<rfloor> else nat \<lfloor>1 / x\<rfloor> + 1))"
    by simp
next
  fix x :: rat
  assume "\<not> x \<le> 0" and x: "2 \<le> x"
  then have "2 \<le> \<lfloor>x\<rfloor>" by (simp add: le_floor_iff)
  moreover have "x < of_int \<lfloor>x\<rfloor> + 1" by linarith
  ultimately have "x / 2 < of_int \<lfloor>x\<rfloor>" by linarith
  then have "\<lfloor>x / 2\<rfloor> < \<lfloor>x\<rfloor>" by (simp add: floor_less_iff)
  moreover from x have "0 \<le> \<lfloor>x / 2\<rfloor>" by simp
  ultimately have "nat \<lfloor>x / 2\<rfloor> < nat \<lfloor>x\<rfloor>" by linarith
  then show "(x / 2, x) \<in> measure (\<lambda>x. if 1 \<le> x then nat \<lfloor>x\<rfloor> else nat \<lfloor>1 / x\<rfloor> + 1)"
    using x by simp
next
  fix x :: rat
  assume pos: "\<not> x \<le> 0" and "\<not> 2 \<le> x" and x: "x < 1"
  from pos x have one: "1 < 1 / x" by (simp add: less_divide_eq)
  then have fl1: "1 \<le> \<lfloor>1 / x\<rfloor>" by (simp add: le_floor_iff)
  show "(x * 2, x) \<in> measure (\<lambda>x. if 1 \<le> x then nat \<lfloor>x\<rfloor> else nat \<lfloor>1 / x\<rfloor> + 1)"
  proof (cases "1 \<le> x * 2")
    case True
    from x have "x * 2 < 2" by simp
    then have "\<lfloor>x * 2\<rfloor> < 2" by (simp add: floor_less_iff)
    then have "nat \<lfloor>x * 2\<rfloor> < 2" by linarith
    moreover from fl1 have "1 \<le> nat \<lfloor>1 / x\<rfloor>" by linarith
    ultimately show ?thesis using True x by simp
  next
    case False
    have "1 / (x * 2) = (1 / x) / 2" by simp
    moreover have "1 / x < of_int \<lfloor>1 / x\<rfloor> + 1" by linarith
    ultimately have "1 / (x * 2) < of_int \<lfloor>1 / x\<rfloor>" using fl1 by linarith
    then have "\<lfloor>1 / (x * 2)\<rfloor> < \<lfloor>1 / x\<rfloor>" by (simp only: floor_less_iff)
    moreover from pos have "0 \<le> \<lfloor>1 / (x * 2)\<rfloor>" by simp
    ultimately have "nat \<lfloor>1 / (x * 2)\<rfloor> < nat \<lfloor>1 / x\<rfloor>" by linarith
    then show ?thesis using False x by simp
  qed
qed

definition fl :: "rat \<Rightarrow> rat" where
  "fl x = (let e = binary_exponent \<bar>x\<bar>; ulp = 2 powi (e - 52)
           in of_int (round_half_even (x / ulp)) * ulp)"

text \<open>
  \<open>round(x, ndigits)\<close> on a float \<open>x\<close>: the exact value of \<open>x\<close> is rounded to the nearest
  multiple of \<open>10 ^ -ndigits\<close>, a tie going to the even multiple, and the result is the
  float nearest to that decimal. On an \<open>int\<close> and \<open>ndigits \<ge> 0\<close>, \<open>round\<close> is the identity;
  the model gives the same value there for every \<open>int\<close> below \<open>2 ^ 53\<close>.
\<close>

definition py_round :: "rat \<Rightarrow> nat \<Rightarrow> rat" where
  "py_round x ndigits = fl (of_int (round_half_even (x * 10 ^ ndigits)) / 10 ^ ndigits)"


section \<open>DiversityMetrics\<close>

subsection \<open>\<open>_calculate_mtld\<close>\<close>

text \<open>
  The loop \<open>for i, token in enumerate(tokens)\<close> of \<open>_calculate_mtld\<close>, as a recursion
  over the tokens still to be read. The loop state is the index \<open>i\<close> of the token
  being read, \<open>start\<close>, \<open>token_types\<close> and \<open>factors\<close>; the value is \<open>factors\<close> when
  the loop ends. \<open>i\<close> and \<open>start\<close> are Python \<open>int\<close>s. The test \<open>ttr < threshold\<close>
  on floats agrees with the test on the exact quotient and the exact threshold for every
  segment shorter than \<open>10 ^ 14\<close> tokens: a quotient of such counts that differs from
  \<open>18 / 25\<close> is further from it than one unit in the last place.
\<close>

fun mtld_loop :: "rat \<Rightarrow> 'a list \<Rightarrow> int \<Rightarrow> int \<Rightarrow> 'a set \<Rightarrow> nat \<Rightarrow> nat" where
  "mtld_loop threshold [] i start token_types factors = factors"
| "mtld_loop threshold (token # rest) i start token_types factors =
     (let token_types = insert token token_types;
          ttr = of_nat (card token_types) / of_int (i - start + 1)
      in if ttr < threshold
         then mtld_loop threshold rest (i + 1) (i + 1) {} (factors + 1)
         else mtld_loop threshold rest (i + 1) start token_types factors)"

definition calculate_mtld :: "'a list \<Rightarrow> rat \<Rightarrow> rat" where
  "calculate_mtld tokens threshold =
     (if length tokens < 50 then 0
      else let factors = mtld_loop threshold tokens 0 0 {} 0
           in if factors = 0 then of_nat (length tokens)
              else of_nat (length tokens) / of_nat factors)"

text \<open>The default value of the parameter \<open>threshold\<close>.\<close>

definition default_threshold :: rat where
  "default_threshold = 72 / 100"

subsection \<open>MTLD as the specification words it\<close>

text \<open>
  The specification's windowed-factor algorithm: scan left to right, keeping the current
  segment (the tokens read since the last factor boundary). After each token the
  segment-local TTR is the number of distinct tokens in the segment over the number of
  tokens in the segment; when it is below 0.72 a factor is closed, the factor counter
  goes up and the segment is reset to empty. \<open>spec_factors\<close> is the number of factors
  closed by the end of the sequence; the tokens of a trailing segment that never dropped
  below the threshold close no factor.
\<close>

fun spec_factors :: "'a list \<Rightarrow> 'a list \<Rightarrow> nat \<Rightarrow> nat" where
  "spec_factors [] segment factor_count = factor_count"
| "spec_factors (t # ts) segment factor_count =
     (if (of_nat (card (set (segment @ [t]))) :: rat) / of_nat (length (segment @ [t])) < 72 / 100
      then spec_factors ts [] (factor_count + 1)
      else spec_factors ts (segment @ [t]) factor_count)"

definition spec_mtld :: "'a list \<Rightarrow> rat" where
  "spec_mtld tokens =
     (if length tokens < 50 then 0
      else if spec_factors tokens [] 0 = 0 then of_nat (length tokens)
      else of_nat (length tokens) / of_nat (spec_factors tokens [] 0))"


subsection \<open>\<open>calculate_lexical_diversity\<close>\<close>

text \<open>
  The returned dictionary has three keys on the early return and four otherwise, so it is
  an association list from key to number. \<open>calculate_mtld\<close> above gives the exact value
  of \<open>len(tokens) / factors\<close>; what \<open>_calculate_mtld\<close> returns is the float nearest to it.
\<close>

definition calculate_lexical_diversity :: "'a list \<Rightarrow> (string \<times> rat) list" where
  "calculate_lexical_diversity tokens =
     (let total_tokens = length tokens;
          unique_tokens = card (set tokens)
      in if total_tokens = 0
         then [(''ttr'', 0), (''unique_words'', 0), (''total_words'', 0)]
         else let ttr = fl (of_nat unique_tokens / of_nat total_tokens);
                  mtld = fl (calculate_mtld tokens default_threshold)
              in [(''ttr'', py_round ttr 4),
                  (''unique_words'', of_nat unique_tokens),
                  (''total_words'', of_nat total_tokens),
                  (''mtld'', py_round mtld 2)])"

text \<open>
  A sequence of 20001 tokens of which 20000 are distinct: \<open>a\<close>, then \<open>a\<close>, \<open>aa\<close>,
  \<open>aaa\<close>, ... up to 20000 letters.
\<close>

definition nearly_distinct_tokens :: "string list" where
  "nearly_distinct_tokens = ''a'' # map (\<lambda>n. replicate (Suc n) CHR ''a'') [0..<20000]"


section \<open>DescriptiveStats\<close>

text \<open>
  \<open>s.split()\<close>: the maximal runs of non-whitespace characters of \<open>s\<close>. The whitespace
  code points below 256 are 9 to 13, 28 to 32, 133 and 160.
\<close>

definition is_space :: "char \<Rightarrow> bool" where
  "is_space c = (let n = (of_char c :: nat)
                 in (9 \<le> n \<and> n \<le> 13) \<or> (28 \<le> n \<and> n \<le> 32) \<or> n = 133 \<or> n = 160)"

fun split_from :: "string \<Rightarrow> string \<Rightarrow> string list" where
  "split_from current [] = (if current = [] then [] else [current])"
| "split_from current (c # cs) =
     (if is_space c
      then (if current = [] then split_from [] cs else current # split_from [] cs)
      else split_from (current @ [c]) cs)"

definition py_split :: "string \<Rightarrow> string list" where
  "py_split s = split_from [] s"

text \<open>
  \<open>numpy\<close> is not part of this repository. Its reductions \<open>np.mean\<close>, \<open>np.median\<close> and
  \<open>np.std\<close> of a list of lengths, which return \<open>np.float64\<close> values, and the rounding of
  such a value by \<open>round(value, ndigits)\<close> are parameters of the two functions that use
  them. \<open>min\<close>, \<open>max\<close>, \<open>len\<close> and the count of long words are Python \<open>int\<close>s, and the
  long-word ratio is a Python float rounded by Python.
\<close>

record numpy =
  np_mean :: "nat list \<Rightarrow> rat"
  np_median :: "nat list \<Rightarrow> rat"
  np_std :: "nat list \<Rightarrow> rat"
  np_round :: "rat \<Rightarrow> nat \<Rightarrow> rat"

definition calculate_sentence_stats :: "numpy \<Rightarrow> string list \<Rightarrow> (string \<times> rat) list" where
  "calculate_sentence_stats np sentences =
     (if sentences = [] then []
      else let sentence_lengths = map (\<lambda>s. length (py_split s)) sentences
           in [(''sentence_count'', of_nat (length sentences)),
               (''avg_sentence_length'', np_round np (np_mean np sentence_lengths) 2),
               (''median_sentence_length'', np_round np (np_median np sentence_lengths) 2),
               (''min_sentence_length'', of_nat (Min (set sentence_lengths))),
               (''max_sentence_length'', of_nat (Max (set sentence_lengths))),
               (''std_sentence_length'', np_round np (np_std np sentence_lengths) 2)])"

definition calculate_word_stats :: "numpy \<Rightarrow> string list \<Rightarrow> (string \<times> rat) list" where
  "calculate_word_stats np tokens =
     (if tokens = [] then []
      else let word_lengths = map length tokens
           in [(''avg_word_length'', np_round np (np_mean np word_lengths) 2),
               (''median_word_length'', np_round np (np_median np word_lengths) 2),
               (''long_words'', of_nat (length (filter (\<lambda>w. 6 < w) word_lengths))),
               (''long_word_ratio'',
                  py_round (fl (of_nat (length (filter (\<lambda>w. 6 < w) word_lengths))
                                / of_nat (length tokens))) 4)])"


section \<open>PairwiseSimilarity\<close>

record vocabulary_overlap =
  shared_words :: nat
  unique_to_first :: nat
  unique_to_second :: nat
  jaccard_similarity :: rat
  overlap_percentage_first :: rat
  overlap_percentage_second :: rat
  shared_words_list :: "string list"

definition calculate_vocabulary_overlap :: "string list \<Rightarrow> string list \<Rightarrow> vocabulary_overlap" where
  "calculate_vocabulary_overlap tokens1 tokens2 =
     (let vocab1 = set tokens1;
          vocab2 = set tokens2;
          shared = vocab1 \<inter> vocab2;
          unique1 = vocab1 - vocab2;
          unique2 = vocab2 - vocab1;
          jaccard = (if vocab1 \<union> vocab2 \<noteq> {}
                     then fl (of_nat (card shared) / of_nat (card (vocab1 \<union> vocab2)))
                     else 0)
      in \<lparr> shared_words = card shared,
           unique_to_first = card unique1,
           unique_to_second = card unique2,
           jaccard_similarity = py_round jaccard 4,
           overlap_percentage_first =
             (if vocab1 \<noteq> {}
              then py_round (fl (fl (of_nat (card shared) / of_nat (card vocab1)) * 100)) 2
              else 0),
           overlap_percentage_second =
             (if vocab2 \<noteq> {}
              then py_round (fl (fl (of_nat (card shared) / of_nat (card vocab2)) * 100)) 2
              else 0),
           shared_words_list = take 100 (sorted_list_of_set shared) \<rparr>)"


section \<open>FrequencyTable\<close>

text \<open>
  A \<open>Counter\<close> is a dictionary from token to count, kept as an association list in
  insertion order: counting a token that is already a key adds one in place, a new
  token is appended with count 1.
\<close>

fun counter_incr :: "'a \<Rightarrow> ('a \<times> nat) list \<Rightarrow> ('a \<times> nat) list" where
  "counter_incr w [] = [(w, 1)]"
| "counter_incr w ((k, c) # items) =
     (if k = w then (k, c + 1) # items else (k, c) # counter_incr w items)"

definition Counter :: "'a list \<Rightarrow> ('a \<times> nat) list" where
  "Counter tokens = foldl (\<lambda>counts w. counter_incr w counts) [] tokens"

text \<open>\<open>counter[word]\<close>: a missing key counts 0.\<close>

definition counter_get :: "('a \<times> nat) list \<Rightarrow> 'a \<Rightarrow> nat" where
  "counter_get counts w = (case map_of counts w of None \<Rightarrow> 0 | Some c \<Rightarrow> c)"

text \<open>
  \<open>most_common(n)\<close> is \<open>heapq.nlargest(n, items, key=count)\<close>, which is
  \<open>sorted(items, key=count, reverse=True)[:n]\<close>: a stable sort by descending count, so
  items of equal count stay in insertion order; \<open>n \<le> 0\<close> gives the empty list.
\<close>

definition most_common :: "int \<Rightarrow> ('a \<times> nat) list \<Rightarrow> ('a \<times> nat) list" where
  "most_common n items = take (nat n) (sort_key (\<lambda>(w, c). - int c) items)"

definition common :: "string set" where
  "common = {''said'', ''one'', ''upon'', ''like'', ''would'', ''also'', ''may'', ''must'',
             ''every'', ''much''}"

definition get_top_words :: "string list \<Rightarrow> int \<Rightarrow> bool \<Rightarrow> (string \<times> nat) list" where
  "get_top_words tokens n exclude_common =
     (let tokens = (if exclude_common then filter (\<lambda>t. t \<notin> common) tokens else tokens);
          counter = Counter tokens
      in most_common n counter)"

text \<open>The position of the first occurrence of a token in a sequence.\<close>

fun first_index :: "'a list \<Rightarrow> 'a \<Rightarrow> nat" where
  "first_index [] w = 0"
| "first_index (x # xs) w = (if x = w then 0 else Suc (first_index xs w))"

text \<open>The distinct tokens of a sequence in the order of their first occurrence.\<close>

fun first_occurrences :: "'a list \<Rightarrow> 'a list" where
  "first_occurrences [] = []"
| "first_occurrences (x # xs) = x # filter (\<lambda>y. y \<noteq> x) (first_occurrences xs)"


text \<open>
  The ranking order of the specification: a pair ranks before another when its count is
  larger, or when the counts are equal and its token occurs first in the sequence.
\<close>

definition ranks_before :: "'a list \<Rightarrow> 'a \<times> nat \<Rightarrow> 'a \<times> nat \<Rightarrow> bool" where
  "ranks_before ts a b =
     (snd b < snd a \<or> (snd a = snd b \<and> first_index ts (fst a) < first_index ts (fst b)))"


section \<open>CorpusComparator\<close>

text \<open>The dictionary returned by \<open>preprocess_for_analysis\<close>, one per document.\<close>

record processed_text =
  cleaned_text :: string
  sentences :: "string list"
  tokens_original :: "string list"
  tokens_lower :: "string list"
  tokens_no_stopwords :: "string list"
  tokens_lemmatized :: "string list"
  sentence_count :: nat
  token_count :: nat
  vocabulary_size :: nat

record shared_word =
  word :: string
  plato_count :: nat
  aristotle_count :: nat

record author_comparison =
  plato_vocabulary_size :: nat
  aristotle_vocabulary_size :: nat
  shared_vocabulary :: nat
  plato_unique :: nat
  aristotle_unique :: nat
  overlap_percentage :: rat
  aristotle_uses_plato :: rat
  top_shared_words :: "shared_word list"
  top_plato_unique :: "(string \<times> nat) list"
  top_aristotle_unique :: "(string \<times> nat) list"

definition true_div :: "nat \<Rightarrow> nat \<Rightarrow> error + rat" where
  "true_div a b = (if b = 0 then Inl ZeroDivisionError else Inr (fl (of_nat a / of_nat b)))"

text \<open>
  \<open>for word in shared\<close> iterates a \<open>set\<close> of strings. Python fixes no order for that:
  it follows the hash values of the strings, which change from one interpreter run to
  the next. The order of the run is the parameter \<open>set_iter\<close>; an iteration order lists
  every element of a finite set once.

  The two author groups are dictionaries from document identifier to processed text,
  given as association lists in insertion order. The entries of the returned dictionary
  literal are evaluated in order, so the first division by zero is the error raised.
\<close>

definition iteration_order :: "('a set \<Rightarrow> 'a list) \<Rightarrow> bool" where
  "iteration_order set_iter = (\<forall>S. finite S \<longrightarrow> set (set_iter S) = S \<and> distinct (set_iter S))"

definition compare_author_vocabularies ::
  "(string set \<Rightarrow> string list) \<Rightarrow> (string \<times> processed_text) list
     \<Rightarrow> (string \<times> processed_text) list \<Rightarrow> error + author_comparison" where
  "compare_author_vocabularies set_iter plato_texts aristotle_texts =
     (let plato_tokens = concat (map (\<lambda>(text_id, text_data). tokens_lemmatized text_data) plato_texts);
          aristotle_tokens =
            concat (map (\<lambda>(text_id, text_data). tokens_lemmatized text_data) aristotle_texts);
          plato_vocab = set plato_tokens;
          aristotle_vocab = set aristotle_tokens;
          shared = plato_vocab \<inter> aristotle_vocab;
          plato_unique = plato_vocab - aristotle_vocab;
          aristotle_unique = aristotle_vocab - plato_vocab;
          plato_freq = Counter plato_tokens;
          aristotle_freq = Counter aristotle_tokens;
          shared_freq =
            map (\<lambda>word. (word, (counter_get plato_freq word, counter_get aristotle_freq word,
                                 counter_get plato_freq word + counter_get aristotle_freq word)))
              (set_iter shared);
          top_shared = take 100 (sort_key (\<lambda>(word, (p, a, total)). - int total) shared_freq)
      in case true_div (card shared) (card (plato_vocab \<union> aristotle_vocab)) of
           Inl e \<Rightarrow> Inl e
         | Inr overlap \<Rightarrow>
             (case true_div (card shared) (card plato_vocab) of
                Inl e \<Rightarrow> Inl e
              | Inr uses \<Rightarrow>
                  Inr \<lparr> plato_vocabulary_size = card plato_vocab,
                        aristotle_vocabulary_size = card aristotle_vocab,
                        shared_vocabulary = card shared,
                        plato_unique = card plato_unique,
                        aristotle_unique = card aristotle_unique,
                        overlap_percentage = py_round (fl (overlap * 100)) 2,
                        aristotle_uses_plato = py_round (fl (uses * 100)) 2,
                        top_shared_words =
                          map (\<lambda>(w, (p, a, total)). \<lparr> word = w, plato_count = p, aristotle_count = a \<rparr>)
                            (take 50 top_shared),
                        top_plato_unique =
                          most_common 30 (Counter (filter (\<lambda>t. t \<in> plato_unique) plato_tokens)),
                        top_aristotle_unique =
                          most_common 30
                            (Counter (filter (\<lambda>t. t \<in> aristotle_unique) aristotle_tokens)) \<rparr>))"

text \<open>A processed text of which only the lemmatized tokens matter.\<close>

definition text_of_tokens :: "string list \<Rightarrow> processed_text" where
  "text_of_tokens ts =
     \<lparr> cleaned_text = [], sentences = [], tokens_original = ts, tokens_lower = ts,
       tokens_no_stopwords = ts, tokens_lemmatized = ts, sentence_count = 0,
       token_count = length ts, vocabulary_size = card (set ts) \<rparr>"


section \<open>\<open>analyze_all_texts\<close>\<close>

text \<open>
  Reading the files and the preprocessor are outside the model: the input \<open>txt_files\<close> is
  the list of the files of \<open>data/processed\<close> in the order of the directory listing, each
  as its identifier (the stem of the file name) and the dictionary that
  \<open>preprocess_for_analysis\<close> returns for its content. The value is what is written to
  \<open>analysis.json\<close>; without files the function prints a message and returns \<open>None\<close>.
\<close>

text \<open>\<open>sep in s\<close> on strings: \<open>sep\<close> occurs in \<open>s\<close> as a contiguous substring.\<close>

fun contains :: "'a list \<Rightarrow> 'a list \<Rightarrow> bool" where
  "contains [] sep = (sep = [])"
| "contains (c # cs) sep = (take (length sep) (c # cs) = sep \<or> contains cs sep)"

definition getitem :: "('k \<times> 'v) list \<Rightarrow> 'k \<Rightarrow> error + 'v" where
  "getitem d k = (case map_of d k of None \<Rightarrow> Inl KeyError | Some v \<Rightarrow> Inr v)"

text \<open>\<open>d[k] = v\<close>: a key that is present keeps its place and gets the new value.\<close>

fun dict_set :: "('k \<times> 'v) list \<Rightarrow> 'k \<Rightarrow> 'v \<Rightarrow> ('k \<times> 'v) list" where
  "dict_set [] k v = [(k, v)]"
| "dict_set ((k', v') # d) k v =
     (if k' = k then (k, v) # d else (k', v') # dict_set d k v)"

text \<open>
  The loading loop fills the three dictionaries \<open>all_texts\<close>, \<open>plato_texts\<close> and
  \<open>aristotle_texts\<close>; a document goes to an author by a substring of its identifier.
\<close>

fun load_texts ::
  "(string \<times> processed_text) list
     \<Rightarrow> (string \<times> processed_text) list \<times> (string \<times> processed_text) list
        \<times> (string \<times> processed_text) list
     \<Rightarrow> (string \<times> processed_text) list \<times> (string \<times> processed_text) list
        \<times> (string \<times> processed_text) list" where
  "load_texts [] loaded = loaded"
| "load_texts ((text_id, processed) # txt_files) (all_texts, plato_texts, aristotle_texts) =
     load_texts txt_files
       (dict_set all_texts text_id processed,
        (if contains text_id ''Plato'' then dict_set plato_texts text_id processed
         else plato_texts),
        (if contains text_id ''Plato'' then aristotle_texts
         else if contains text_id ''Aristotle'' \<or> contains text_id ''Artistotle''
         then dict_set aristotle_texts text_id processed
         else aristotle_texts))"

subsection \<open>The pairwise comparisons\<close>

text \<open>
  \<open>text_ids = list(all_texts.keys())\<close>. The comparison matrix \<open>pairwise_overlaps\<close> is a
  dictionary keyed by the string \<open>f"{id1} vs {id2}"\<close>.
\<close>

definition pair_key :: "string \<Rightarrow> string \<Rightarrow> string" where
  "pair_key id1 id2 = id1 @ '' vs '' @ id2"

text \<open>The inner loop \<open>for id2 in text_ids[i+1:]\<close>, over the identifiers still to come.\<close>

fun pairs_with ::
  "(string \<times> processed_text) list \<Rightarrow> string \<Rightarrow> string list
     \<Rightarrow> (string \<times> vocabulary_overlap) list \<Rightarrow> error + (string \<times> vocabulary_overlap) list" where
  "pairs_with all_texts id1 [] pairwise_overlaps = Inr pairwise_overlaps"
| "pairs_with all_texts id1 (id2 # later) pairwise_overlaps =
     (case getitem all_texts id1 of
        Inl e \<Rightarrow> Inl e
      | Inr data1 \<Rightarrow>
          (case getitem all_texts id2 of
             Inl e \<Rightarrow> Inl e
           | Inr data2 \<Rightarrow>
               pairs_with all_texts id1 later
                 (dict_set pairwise_overlaps (pair_key id1 id2)
                    (calculate_vocabulary_overlap (tokens_lemmatized data1)
                       (tokens_lemmatized data2)))))"

text \<open>
  The outer loop \<open>for i, id1 in enumerate(text_ids)\<close>: when \<open>id1\<close> is read, the slice
  \<open>text_ids[i+1:]\<close> is the rest of the list.
\<close>

fun pairs_from ::
  "(string \<times> processed_text) list \<Rightarrow> string list
     \<Rightarrow> (string \<times> vocabulary_overlap) list \<Rightarrow> error + (string \<times> vocabulary_overlap) list" where
  "pairs_from all_texts [] pairwise_overlaps = Inr pairwise_overlaps"
| "pairs_from all_texts (id1 # later) pairwise_overlaps =
     (case pairs_with all_texts id1 later pairwise_overlaps of
        Inl e \<Rightarrow> Inl e
      | Inr pairwise_overlaps' \<Rightarrow> pairs_from all_texts later pairwise_overlaps')"

definition pairwise_overlaps ::
  "(string \<times> processed_text) list \<Rightarrow> error + (string \<times> vocabulary_overlap) list" where
  "pairwise_overlaps all_texts =
     (let text_ids = map fst all_texts in pairs_from all_texts text_ids [])"

subsection \<open>The whole run\<close>

record text_analysis =
  basic_stats :: "(string \<times> nat) list"
  lexical_diversity :: "(string \<times> rat) list"
  sentence_stats :: "(string \<times> rat) list"
  word_stats :: "(string \<times> rat) list"
  top_words :: "(string \<times> nat) list"

record analysis =
  individual_texts :: "(string \<times> text_analysis) list"
  plato_vs_aristotle :: author_comparison
  pairwise_comparisons :: "(string \<times> vocabulary_overlap) list"

text \<open>
  The individual results are computed for every document, then the two author groups are
  compared, then all pairs of documents; an exception raised by a step ends the run, and
  the later steps are not reached. The keys of \<open>all_texts\<close> are distinct, so the dictionary
  \<open>results\<close> has one entry for each of its items, in the same order.
\<close>

definition analyze_all_texts ::
  "(string set \<Rightarrow> string list) \<Rightarrow> numpy \<Rightarrow> (string \<times> processed_text) list
     \<Rightarrow> error + analysis option" where
  "analyze_all_texts set_iter np txt_files =
     (if txt_files = [] then Inr None
      else
        case load_texts txt_files ([], [], []) of
          (all_texts, plato_texts, aristotle_texts) \<Rightarrow>
            let results =
                  map (\<lambda>(text_id, data).
                         (text_id,
                          \<lparr> basic_stats =
                              [(''sentence_count'', sentence_count data),
                               (''word_count'', token_count data),
                               (''vocabulary_size'', vocabulary_size data)],
                            lexical_diversity = calculate_lexical_diversity (tokens_lower data),
                            sentence_stats = calculate_sentence_stats np (sentences data),
                            word_stats = calculate_word_stats np (tokens_lower data),
                            top_words = get_top_words (tokens_lemmatized data) 50 True \<rparr>))
                    all_texts
            in case compare_author_vocabularies set_iter plato_texts aristotle_texts of
                 Inl e \<Rightarrow> Inl e
               | Inr author_comparison \<Rightarrow>
                   (case pairwise_overlaps all_texts of
                      Inl e \<Rightarrow> Inl e
                    | Inr overlaps \<Rightarrow>
                        Inr (Some \<lparr> individual_texts = results,
                                    plato_vs_aristotle = author_comparison,
                                    pairwise_comparisons = overlaps \<rparr>)))"

text \<open>The unordered pairs of a list of identifiers, earlier identifier first.\<close>

fun unordered_pairs :: "'a list \<Rightarrow> ('a \<times> 'a) list" where
  "unordered_pairs [] = []"
| "unordered_pairs (x # xs) = map (Pair x) xs @ unordered_pairs xs"

text \<open>
  The entry of the comparison matrix for a pair of identifiers: its key, and the overlap
  of the lemmatized tokens stored under the two identifiers.
\<close>

definition tokens_of :: "(string \<times> processed_text) list \<Rightarrow> string \<Rightarrow> string list" where
  "tokens_of all_texts k =
     (case map_of all_texts k of None \<Rightarrow> [] | Some text_data \<Rightarrow> tokens_lemmatized text_data)"

definition matrix_entry ::
  "(string \<times> processed_text) list \<Rightarrow> string \<times> string \<Rightarrow> string \<times> vocabulary_overlap" where
  "matrix_entry all_texts =
     (\<lambda>(id1, id2). (pair_key id1 id2,
        calculate_vocabulary_overlap (tokens_of all_texts id1) (tokens_of all_texts id2)))"

text \<open>
  Four files with distinct identifiers, two by each author. The pair Plato and
  Laws vs Aristotle and the pair Plato vs Laws and Aristotle have the same key.
\<close>

definition colliding_files :: "(string \<times> processed_text) list" where
  "colliding_files =
     [(''Plato'', text_of_tokens [''justice'']),
      (''Laws vs Aristotle'', text_of_tokens [''law'']),
      (''Plato vs Laws'', text_of_tokens [''city'']),
      (''Aristotle'', text_of_tokens [''virtue''])]"


section \<open>The loop of \<open>_calculate_mtld\<close> against the specification\<close>

text \<open>
  The loop keeps the set of the current segment in \<open>token_types\<close> and its length as
  \<open>i - start\<close>.
\<close>

lemma mtld_loop_spec_factors:
  "start \<le> i \<Longrightarrow> length segment = nat (i - start) \<Longrightarrow>
   mtld_loop (72 / 100) tokens i start (set segment) f = spec_factors tokens segment f"
proof (induction tokens arbitrary: i start segment f)
  case Nil
  then show ?case by simp
next
  case (Cons t ts)
  have cnt: "(of_int (i - start + 1) :: rat) = of_nat (length (segment @ [t]))"
    using Cons.prems by simp
  have types: "insert t (set segment) = set (segment @ [t])"
    by simp
  have "mtld_loop (72 / 100) ts (i + 1) (i + 1) (set []) (f + 1) = spec_factors ts [] (f + 1)"
    by (rule Cons.IH) simp_all
  then have reset: "mtld_loop (72 / 100) ts (i + 1) (i + 1) {} (f + 1) = spec_factors ts [] (f + 1)"
    by simp
  have keep: "mtld_loop (72 / 100) ts (i + 1) start (set (segment @ [t])) f
              = spec_factors ts (segment @ [t]) f"
    by (rule Cons.IH) (use Cons.prems in simp_all)
  show ?case
    unfolding mtld_loop.simps spec_factors.simps Let_def cnt types keep reset
    by (rule refl)
qed

lemma mtld_loop_default:
  "mtld_loop default_threshold tokens 0 0 {} 0 = spec_factors tokens [] 0"
  unfolding default_threshold_def
  using mtld_loop_spec_factors [of 0 0 "[]" tokens 0] by simp

text \<open>
  Claim C1. For every token sequence, \<open>_calculate_mtld\<close> with its default threshold
  computes the specification's MTLD: 0 below 50 tokens; otherwise a factor is closed
  exactly when the segment-local TTR is strictly below 0.72; the full length when no
  factor was closed; otherwise the total length (trailing partial segment included)
  divided by the number of closed factors.
\<close>

theorem calculate_mtld_meets_spec:
  "calculate_mtld tokens default_threshold = spec_mtld tokens"
  by (simp add: calculate_mtld_def spec_mtld_def Let_def mtld_loop_default)

theorem calculate_mtld_meets_spec_witness:
  "calculate_mtld (replicate 51 ''a'') default_threshold = 51 / 25"
proof -
  have "spec_mtld (replicate 51 ''a'') = 51 / 25"
    by code_simp
  with calculate_mtld_meets_spec [of "replicate 51 ''a''"] show ?thesis
    by (rule trans)
qed

section \<open>Rounding\<close>

lemma round_half_even_cases:
  "round_half_even x = \<lfloor>x\<rfloor> \<or> round_half_even x = \<lfloor>x\<rfloor> + 1"
  by (simp add: round_half_even_def Let_def)

lemma round_half_even_upper:
  "of_int (round_half_even x) \<le> x + 1 / 2"
  unfolding round_half_even_def Let_def
  by (auto simp: not_less) linarith+

lemma round_half_even_lower:
  "x - 1 / 2 \<le> of_int (round_half_even x)"
  unfolding round_half_even_def Let_def
  by (auto simp: not_less) linarith+

lemma round_half_even_of_int [simp]:
  "round_half_even (of_int k) = k"
  by (simp add: round_half_even_def)

lemma round_half_even_le:
  assumes "x \<le> of_int k"
  shows "round_half_even x \<le> k"
proof (cases "x = of_int k")
  case True
  then show ?thesis by simp
next
  case False
  with assms have "x < of_int k" by simp
  then have "\<lfloor>x\<rfloor> < k" by (simp add: floor_less_iff)
  with round_half_even_cases [of x] show ?thesis by auto
qed

lemma round_half_even_ge:
  assumes "of_int k \<le> x"
  shows "k \<le> round_half_even x"
proof -
  from assms have "k \<le> \<lfloor>x\<rfloor>" by (simp add: le_floor_iff)
  with round_half_even_cases [of x] show ?thesis by auto
qed

lemma round_half_even_mono:
  assumes "x \<le> y"
  shows "round_half_even x \<le> round_half_even y"
proof (cases "\<lfloor>x\<rfloor> = \<lfloor>y\<rfloor>")
  case True
  with assms show ?thesis
    unfolding round_half_even_def Let_def by (auto simp: not_less)
next
  case False
  with assms have "\<lfloor>x\<rfloor> < \<lfloor>y\<rfloor>"
    using floor_mono [of x y] by simp
  with round_half_even_cases [of x] round_half_even_cases [of y] show ?thesis
    by auto
qed

lemma round_half_even_error:
  "\<bar>of_int (round_half_even x) - x\<bar> \<le> 1 / 2"
  using round_half_even_upper [of x] round_half_even_lower [of x] by linarith

lemma floor_numeral_quotient:
  "\<lfloor>numeral a / numeral b :: 'a::floor_ceiling\<rfloor> = numeral a div numeral b"
  by (metis floor_divide_of_int_eq of_int_numeral)

section \<open>Floats\<close>

declare binary_exponent.simps [simp del]

lemma binary_exponent_bounds:
  "0 < x \<Longrightarrow> 2 powi binary_exponent x \<le> x \<and> x < 2 powi (binary_exponent x + 1)"
proof (induction x rule: binary_exponent.induct)
  case (1 x)
  show ?case
  proof (cases "2 \<le> x")
    case True
    with "1.prems" have e: "binary_exponent x = binary_exponent (x / 2) + 1"
      by (subst binary_exponent.simps) simp
    from True "1.prems" have "2 powi binary_exponent (x / 2) \<le> x / 2
        \<and> x / 2 < 2 powi (binary_exponent (x / 2) + 1)"
      by (intro "1.IH"(1)) simp_all
    then show ?thesis
      unfolding e by (simp add: power_int_add)
  next
    case False
    show ?thesis
    proof (cases "x < 1")
      case True
      with False "1.prems" have e: "binary_exponent x = binary_exponent (x * 2) - 1"
        by (subst binary_exponent.simps) simp
      from True False "1.prems" have "2 powi binary_exponent (x * 2) \<le> x * 2
          \<and> x * 2 < 2 powi (binary_exponent (x * 2) + 1)"
        by (intro "1.IH"(2)) simp_all
      then show ?thesis
        unfolding e by (simp add: power_int_add power_int_diff)
    next
      case ge: False
      with False "1.prems" have "binary_exponent x = 0"
        by (subst binary_exponent.simps) simp
      with False ge show ?thesis by simp
    qed
  qed
qed

lemma binary_exponent_unique:
  assumes "2 powi e \<le> x" and "x < 2 powi (e + 1)"
  shows "binary_exponent x = e"
proof -
  have pos: "0 < x"
    using assms(1) zero_less_power_int [of "2::rat" e] by linarith
  let ?b = "binary_exponent x"
  from binary_exponent_bounds [OF pos] have b: "2 powi ?b \<le> x" "x < 2 powi (?b + 1)"
    by simp_all
  have "\<not> e < ?b"
  proof
    assume "e < ?b"
    then have "(2::rat) powi (e + 1) \<le> 2 powi ?b"
      by (intro power_int_increasing) simp_all
    with b(1) assms(2) show False by linarith
  qed
  moreover have "\<not> ?b < e"
  proof
    assume "?b < e"
    then have "(2::rat) powi (?b + 1) \<le> 2 powi e"
      by (intro power_int_increasing) simp_all
    with b(2) assms(1) show False by linarith
  qed
  ultimately show ?thesis by simp
qed

text \<open>The float nearest to a number whose binary exponent is known.\<close>

lemma fl_at:
  assumes "2 powi e \<le> \<bar>x\<bar>" and "\<bar>x\<bar> < 2 powi (e + 1)"
  shows "fl x = of_int (round_half_even (x / 2 powi (e - 52))) * 2 powi (e - 52)"
  using binary_exponent_unique [OF assms] by (simp add: fl_def Let_def)

lemmas fl_eval = round_half_even_def Let_def floor_numeral_quotient

lemma fl_zero [simp]: "fl 0 = 0"
  by (simp add: fl_def round_half_even_def)

lemma fl_one [simp]: "fl 1 = 1"
  using fl_at [of 0 1] by (simp add: fl_eval)

lemma fl_nonneg:
  assumes "0 \<le> x"
  shows "0 \<le> fl x"
proof -
  define u :: rat where "u = 2 powi (binary_exponent \<bar>x\<bar> - 52)"
  have u: "0 < u" by (simp add: u_def)
  with assms have "of_int 0 \<le> x / u" by simp
  then have "0 \<le> round_half_even (x / u)" by (rule round_half_even_ge)
  with u show ?thesis by (simp add: fl_def Let_def u_def [symmetric])
qed

lemma ulp_scale:
  "(2::rat) powi e = 2 powi (e - 52) * 2 ^ 52"
  "(2::rat) powi (e + 1) = 2 powi (e - 52) * 2 ^ 53"
proof -
  have "(2::rat) powi e = 2 powi ((e - 52) + 52)"
    by (rule arg_cong [where f = "\<lambda>k. 2 powi k"]) simp
  also have "\<dots> = 2 powi (e - 52) * 2 powi 52"
    by (rule power_int_add) simp
  finally show "(2::rat) powi e = 2 powi (e - 52) * 2 ^ 52" by simp
  have "(2::rat) powi (e + 1) = 2 powi ((e - 52) + 53)"
    by (rule arg_cong [where f = "\<lambda>k. 2 powi k"]) simp
  also have "\<dots> = 2 powi (e - 52) * 2 powi 53"
    by (rule power_int_add) simp
  finally show "(2::rat) powi (e + 1) = 2 powi (e - 52) * 2 ^ 53" by simp
qed

lemma fl_between:
  assumes "2 powi e \<le> x" and "x < 2 powi (e + 1)"
  shows "2 powi e \<le> fl x" and "fl x \<le> 2 powi (e + 1)"
proof -
  define u :: rat where "u = 2 powi (e - 52)"
  have u: "0 < u" by (simp add: u_def)
  have pos: "0 < x"
    using assms(1) zero_less_power_int [of "2::rat" e] by linarith
  then have ax: "\<bar>x\<bar> = x" by simp
  have f: "fl x = of_int (round_half_even (x / u)) * u"
    unfolding u_def using assms by (intro fl_at) (simp_all only: ax)
  from assms(1) u have "of_int (2 ^ 52) \<le> x / u"
    by (simp add: ulp_scale(1) [of e] u_def [symmetric] le_divide_eq mult.commute)
  then have "2 ^ 52 \<le> round_half_even (x / u)" by (rule round_half_even_ge)
  then have "(of_int (2 ^ 52) :: rat) \<le> of_int (round_half_even (x / u))"
    by (simp only: of_int_le_iff)
  with u have "of_int (2 ^ 52) * u \<le> of_int (round_half_even (x / u)) * u"
    by (intro mult_right_mono) simp_all
  then show "2 powi e \<le> fl x"
    by (simp add: f ulp_scale(1) [of e] u_def [symmetric] mult.commute)
  from assms(2) u have "x / u \<le> of_int (2 ^ 53)"
    by (simp add: ulp_scale(2) [of e] u_def [symmetric] divide_le_eq mult.commute)
  then have "round_half_even (x / u) \<le> 2 ^ 53" by (rule round_half_even_le)
  then have "(of_int (round_half_even (x / u)) :: rat) \<le> of_int (2 ^ 53)"
    by (simp only: of_int_le_iff)
  with u have "of_int (round_half_even (x / u)) * u \<le> of_int (2 ^ 53) * u"
    by (intro mult_right_mono) simp_all
  then show "fl x \<le> 2 powi (e + 1)"
    by (simp add: f ulp_scale(2) [of e] u_def [symmetric] mult.commute)
qed

lemma fl_mono:
  assumes "0 \<le> x" and "x \<le> y"
  shows "fl x \<le> fl y"
proof (cases "x = 0")
  case True
  with assms show ?thesis by (simp add: fl_nonneg)
next
  case False
  with assms have x: "0 < x" and y: "0 < y" by simp_all
  let ?a = "binary_exponent x" and ?b = "binary_exponent y"
  from binary_exponent_bounds [OF x] have bx: "2 powi ?a \<le> x" "x < 2 powi (?a + 1)"
    by simp_all
  from binary_exponent_bounds [OF y] have bY: "2 powi ?b \<le> y" "y < 2 powi (?b + 1)"
    by simp_all
  have "?a \<le> ?b"
  proof (rule ccontr)
    assume "\<not> ?a \<le> ?b"
    then have "(2::rat) powi (?b + 1) \<le> 2 powi ?a"
      by (intro power_int_increasing) simp_all
    with bx(1) bY(2) assms(2) show False by linarith
  qed
  show ?thesis
  proof (cases "?a = ?b")
    case True
    define u :: rat where "u = 2 powi (?a - 52)"
    have u: "0 < u" by (simp add: u_def)
    from x y have fx: "fl x = of_int (round_half_even (x / u)) * u"
      and fy: "fl y = of_int (round_half_even (y / u)) * u"
      by (simp_all add: fl_def Let_def u_def True)
    from assms(2) u have "x / u \<le> y / u" by (simp add: divide_right_mono)
    then have "round_half_even (x / u) \<le> round_half_even (y / u)"
      by (rule round_half_even_mono)
    then have "(of_int (round_half_even (x / u)) :: rat) \<le> of_int (round_half_even (y / u))"
      by (simp only: of_int_le_iff)
    with u show ?thesis
      unfolding fx fy by (intro mult_right_mono) simp_all
  next
    case False
    with \<open>?a \<le> ?b\<close> have "(2::rat) powi (?a + 1) \<le> 2 powi ?b"
      by (intro power_int_increasing) simp_all
    with fl_between(2) [OF bx] fl_between(1) [OF bY] show ?thesis
      by linarith
  qed
qed

lemma fl_le_one:
  "0 \<le> x \<Longrightarrow> x \<le> 1 \<Longrightarrow> fl x \<le> 1"
  using fl_mono [of x 1] by simp

text \<open>The relative error of rounding to a float is at most \<open>2 ^ -53\<close>.\<close>

lemma fl_error:
  "\<bar>fl x - x\<bar> \<le> \<bar>x\<bar> / 2 ^ 53"
proof (cases "x = 0")
  case True
  then show ?thesis by simp
next
  case False
  then have pos: "0 < \<bar>x\<bar>" by simp
  define e where "e = binary_exponent \<bar>x\<bar>"
  define u :: rat where "u = 2 powi (e - 52)"
  have u: "0 < u" by (simp add: u_def)
  from binary_exponent_bounds [OF pos] have low: "2 powi e \<le> \<bar>x\<bar>"
    by (simp add: e_def)
  have f: "fl x = of_int (round_half_even (x / u)) * u"
    by (simp add: fl_def Let_def u_def e_def)
  have "fl x - x = (of_int (round_half_even (x / u)) - x / u) * u"
    using u by (simp add: f algebra_simps)
  then have "\<bar>fl x - x\<bar> = \<bar>of_int (round_half_even (x / u)) - x / u\<bar> * u"
    using u by (simp add: abs_mult)
  also have "\<dots> \<le> (1 / 2) * u"
    using u round_half_even_error [of "x / u"] by (intro mult_right_mono) simp_all
  also have "\<dots> = 2 powi e / 2 ^ 53"
    by (simp add: ulp_scale(1) [of e] u_def [symmetric])
  also have "\<dots> \<le> \<bar>x\<bar> / 2 ^ 53"
    using low by (intro divide_right_mono) simp_all
  finally show ?thesis .
qed

lemma fl_error_unit:
  assumes "0 \<le> x" and "x \<le> 1"
  shows "\<bar>fl x - x\<bar> \<le> 1 / 2 ^ 53"
proof -
  from assms have "\<bar>x\<bar> / 2 ^ 53 \<le> 1 / 2 ^ 53"
    by (intro divide_right_mono) simp_all
  with fl_error [of x] show ?thesis by linarith
qed

section \<open>\<open>round\<close> on floats\<close>

lemma py_round_decimal:
  "\<exists>k. py_round x n = fl (of_int k / 10 ^ n) \<and> \<bar>of_int k / 10 ^ n - x\<bar> \<le> 1 / (2 * 10 ^ n)"
proof -
  define k where "k = round_half_even (x * 10 ^ n)"
  have "\<bar>of_int k - x * 10 ^ n\<bar> \<le> 1 / 2"
    unfolding k_def by (rule round_half_even_error)
  then have "\<bar>of_int k - x * 10 ^ n\<bar> / 10 ^ n \<le> (1 / 2) / 10 ^ n"
    by (rule divide_right_mono) simp
  moreover have "of_int k / 10 ^ n - x = (of_int k - x * 10 ^ n) / 10 ^ n"
    by (simp add: diff_divide_distrib)
  then have "\<bar>of_int k / 10 ^ n - x\<bar> = \<bar>of_int k - x * 10 ^ n\<bar> / \<bar>10 ^ n\<bar>"
    by (simp only: abs_divide)
  then have "\<bar>of_int k / 10 ^ n - x\<bar> = \<bar>of_int k - x * 10 ^ n\<bar> / 10 ^ n"
    by simp
  ultimately have "\<bar>of_int k / 10 ^ n - x\<bar> \<le> 1 / (2 * 10 ^ n)"
    by simp
  moreover have "py_round x n = fl (of_int k / 10 ^ n)"
    by (simp add: py_round_def k_def)
  ultimately show ?thesis by blast
qed

lemma py_round_zero [simp]: "py_round 0 n = 0"
  using round_half_even_of_int [of 0, where 'a = rat] by (simp add: py_round_def)

lemma py_round_one [simp]: "py_round 1 n = 1"
proof -
  have "round_half_even ((1::rat) * 10 ^ n) = round_half_even (of_int (10 ^ n) :: rat)"
    by simp
  also have "\<dots> = 10 ^ n"
    by (rule round_half_even_of_int)
  finally show ?thesis
    by (simp add: py_round_def)
qed

lemma decimal_unit_interval:
  assumes "0 \<le> x" and "x \<le> 1"
  shows "0 \<le> (of_int (round_half_even (x * 10 ^ n)) :: rat) / 10 ^ n"
    and "(of_int (round_half_even (x * 10 ^ n)) :: rat) / 10 ^ n \<le> 1"
proof -
  from assms(1) have "of_int 0 \<le> x * 10 ^ n" by simp
  then have "0 \<le> round_half_even (x * 10 ^ n)" by (rule round_half_even_ge)
  then show "0 \<le> (of_int (round_half_even (x * 10 ^ n)) :: rat) / 10 ^ n"
    by simp
  from assms(2) have "x * 10 ^ n \<le> of_int (10 ^ n)" by simp
  then have "round_half_even (x * 10 ^ n) \<le> 10 ^ n" by (rule round_half_even_le)
  then have "(of_int (round_half_even (x * 10 ^ n)) :: rat) \<le> of_int (10 ^ n)"
    by (simp only: of_int_le_iff)
  then show "(of_int (round_half_even (x * 10 ^ n)) :: rat) / 10 ^ n \<le> 1"
    by (simp add: divide_le_eq)
qed

lemma py_round_unit_interval:
  assumes "0 \<le> x" and "x \<le> 1"
  shows "0 \<le> py_round x n \<and> py_round x n \<le> 1"
  unfolding py_round_def
  using decimal_unit_interval [OF assms, of n] by (simp add: fl_nonneg fl_le_one)

text \<open>
  A float between 0 and 1 rounded to \<open>n\<close> decimals moves by at most half a unit of the
  last decimal and the error of one float.
\<close>

lemma py_round_error_unit:
  assumes "0 \<le> x" and "x \<le> 1"
  shows "\<bar>py_round x n - x\<bar> \<le> 1 / (2 * 10 ^ n) + 1 / 2 ^ 53"
proof -
  define d :: rat where "d = of_int (round_half_even (x * 10 ^ n)) / 10 ^ n"
  have "\<bar>of_int (round_half_even (x * 10 ^ n)) - x * 10 ^ n\<bar> \<le> 1 / 2"
    by (rule round_half_even_error)
  then have "\<bar>of_int (round_half_even (x * 10 ^ n)) - x * 10 ^ n\<bar> / 10 ^ n \<le> (1 / 2) / 10 ^ n"
    by (rule divide_right_mono) simp
  moreover have "d - x = (of_int (round_half_even (x * 10 ^ n)) - x * 10 ^ n) / 10 ^ n"
    by (simp add: d_def diff_divide_distrib)
  then have "\<bar>d - x\<bar> = \<bar>of_int (round_half_even (x * 10 ^ n)) - x * 10 ^ n\<bar> / \<bar>10 ^ n\<bar>"
    by (simp only: abs_divide)
  then have "\<bar>d - x\<bar> = \<bar>of_int (round_half_even (x * 10 ^ n)) - x * 10 ^ n\<bar> / 10 ^ n"
    by simp
  ultimately have near: "\<bar>d - x\<bar> \<le> 1 / (2 * 10 ^ n)" by simp
  have "0 \<le> d" and "d \<le> 1"
    unfolding d_def using decimal_unit_interval [OF assms, of n] by simp_all
  then have "\<bar>fl d - d\<bar> \<le> 1 / 2 ^ 53" by (rule fl_error_unit)
  with near have "\<bar>fl d - x\<bar> \<le> 1 / (2 * 10 ^ n) + 1 / 2 ^ 53" by linarith
  then show ?thesis by (simp only: py_round_def d_def)
qed

text \<open>
  The model at decimal ties of the exact quotient, where the binary value of the float
  decides: \<open>round(1/160, 4)\<close> is 0.0063, \<open>round(87/40, 2)\<close> is 2.17, \<open>round(23/160, 4)\<close> is
  0.1437 and \<open>round(23/160*100, 2)\<close> is 14.37.
\<close>

lemma fl_1_160: "fl (1 / 160) = 3602879701896397 / 2 ^ 59"
  using fl_at [of "-8" "1 / 160"] by (simp add: fl_eval)

lemma fl_87_40: "fl (87 / 40) = 4897664594765414 / 2 ^ 51"
  using fl_at [of 1 "87 / 40"] by (simp add: fl_eval)

lemma fl_23_160: "fl (23 / 160) = 5179139571476070 / 2 ^ 55"
  using fl_at [of "-3" "23 / 160"] by (simp add: fl_eval)

lemma py_round_at_ties:
  "py_round (fl (1 / 160)) 4 = fl (63 / 10000)"
  "py_round (fl (87 / 40)) 2 = fl (217 / 100)"
  "py_round (fl (23 / 160)) 4 = fl (1437 / 10000)"
  by (simp_all add: fl_1_160 fl_87_40 fl_23_160 py_round_def fl_eval)

section \<open>Vocabulary overlap\<close>

lemma card_partition_first:
  "card (set xs \<inter> set ys) + card (set xs - set ys) = card (set xs)"
proof -
  have "card ((set xs \<inter> set ys) \<union> (set xs - set ys))
        = card (set xs \<inter> set ys) + card (set xs - set ys)"
    by (rule card_Un_disjoint) auto
  moreover have "(set xs \<inter> set ys) \<union> (set xs - set ys) = set xs"
    by auto
  ultimately show ?thesis by simp
qed

lemma card_partition_union:
  "card (set xs \<union> set ys)
   = card (set xs \<inter> set ys) + card (set xs - set ys) + card (set ys - set xs)"
proof -
  have "set xs \<union> set ys = set xs \<union> (set ys - set xs)"
    by auto
  moreover have "card (set xs \<union> (set ys - set xs)) = card (set xs) + card (set ys - set xs)"
    by (rule card_Un_disjoint) auto
  ultimately show ?thesis
    using card_partition_first [of xs ys] by simp
qed

lemmas overlap_eval = calculate_vocabulary_overlap_def Let_def card_insert_if

lemma fl_half [simp]: "fl (1 / 2) = 1 / 2"
  using fl_at [of "-1" "1 / 2"] by (simp add: fl_eval)

lemma fl_quarter [simp]: "fl (1 / 4) = 1 / 4"
  using fl_at [of "-2" "1 / 4"] by (simp add: fl_eval)

lemma fl_100 [simp]: "fl 100 = 100"
  using fl_at [of 6 100] by (simp add: fl_eval)

lemma fl_50 [simp]: "fl 50 = 50"
  using fl_at [of 5 50] by (simp add: fl_eval)

lemma fl_2_3: "fl (2 / 3) = 6004799503160661 / 2 ^ 53"
  using fl_at [of "-1" "2 / 3"] by (simp add: fl_eval)

lemma fl_2_3_percent: "fl (fl (2 / 3) * 100) = 4691249611844266 / 2 ^ 46"
  using fl_at [of 6 "fl (2 / 3) * 100"] by (simp add: fl_2_3 fl_eval)

lemma py_round_2_3_percent: "py_round (fl (fl (2 / 3) * 100)) 2 = fl (6667 / 100)"
  by (simp add: fl_2_3_percent py_round_def fl_eval)

lemma fl_23_160_percent: "fl (fl (23 / 160) * 100) = 8092405580431359 / 2 ^ 49"
  using fl_at [of 3 "fl (23 / 160) * 100"] by (simp add: fl_23_160 fl_eval)

text \<open>\<open>round(23/160*100, 2)\<close> is 14.37.\<close>

lemma py_round_23_160_percent: "py_round (fl (fl (23 / 160) * 100)) 2 = fl (1437 / 100)"
  by (simp add: fl_23_160_percent py_round_def fl_eval)

lemma quotient_unit_interval:
  assumes "a \<le> b" and "0 < b"
  shows "0 \<le> (of_nat a :: rat) / of_nat b" and "(of_nat a :: rat) / of_nat b \<le> 1"
proof -
  show "0 \<le> (of_nat a :: rat) / of_nat b" by simp
  from assms(1) have "(of_nat a :: rat) \<le> of_nat b" by (simp only: of_nat_le_iff)
  with assms(2) show "(of_nat a :: rat) / of_nat b \<le> 1" by (simp add: divide_le_eq)
qed

text \<open>
  A quotient between 0 and 1, divided as floats and rounded to \<open>n\<close> decimals, is the float
  nearest to a decimal of \<open>n\<close> digits that is within half a unit of the last digit, and the
  error of one float, of the exact quotient.
\<close>

lemma rounded_quotient:
  assumes "0 \<le> q" and "q \<le> 1"
  shows "\<exists>k. py_round (fl q) n = fl (of_int k / 10 ^ n)
           \<and> \<bar>of_int k / 10 ^ n - q\<bar> \<le> 1 / (2 * 10 ^ n) + 1 / 2 ^ 53"
proof -
  from py_round_decimal [of "fl q" n] obtain k
    where k: "py_round (fl q) n = fl (of_int k / 10 ^ n)"
      and near: "\<bar>of_int k / 10 ^ n - fl q\<bar> \<le> 1 / (2 * 10 ^ n)"
    by blast
  from assms have "\<bar>fl q - q\<bar> \<le> 1 / 2 ^ 53" by (rule fl_error_unit)
  with near have "\<bar>of_int k / 10 ^ n - q\<bar> \<le> 1 / (2 * 10 ^ n) + 1 / 2 ^ 53"
    by linarith
  with k show ?thesis by blast
qed

text \<open>The same for the quotient times 100; the float errors are below \<open>2 ^ -45\<close>.\<close>

lemma rounded_percentage:
  assumes "0 \<le> q" and "q \<le> 1"
  shows "\<exists>k. py_round (fl (fl q * 100)) n = fl (of_int k / 10 ^ n)
           \<and> \<bar>of_int k / 10 ^ n - q * 100\<bar> \<le> 1 / (2 * 10 ^ n) + 1 / 2 ^ 45"
proof -
  from py_round_decimal [of "fl (fl q * 100)" n] obtain k
    where k: "py_round (fl (fl q * 100)) n = fl (of_int k / 10 ^ n)"
      and near: "\<bar>of_int k / 10 ^ n - fl (fl q * 100)\<bar> \<le> 1 / (2 * 10 ^ n)"
    by blast
  from assms have e1: "\<bar>fl q - q\<bar> \<le> 1 / 2 ^ 53" by (rule fl_error_unit)
  from assms have range: "0 \<le> fl q" "fl q \<le> 1"
    by (simp_all add: fl_nonneg fl_le_one)
  then have "\<bar>fl q * 100\<bar> \<le> 100" by simp
  then have "\<bar>fl q * 100\<bar> / 2 ^ 53 \<le> 100 / 2 ^ 53"
    by (rule divide_right_mono) simp
  with fl_error [of "fl q * 100"] have e2: "\<bar>fl (fl q * 100) - fl q * 100\<bar> \<le> 100 / 2 ^ 53"
    by linarith
  from e1 e2 have "\<bar>fl (fl q * 100) - q * 100\<bar> \<le> 200 / 2 ^ 53"
    by linarith
  also have "(200::rat) / 2 ^ 53 \<le> 1 / 2 ^ 45" by simp
  finally have "\<bar>fl (fl q * 100) - q * 100\<bar> \<le> 1 / 2 ^ 45" .
  with near have "\<bar>of_int k / 10 ^ n - q * 100\<bar> \<le> 1 / (2 * 10 ^ n) + 1 / 2 ^ 45"
    by linarith
  with k show ?thesis by blast
qed

text \<open>
  Claim C10. The counts returned by \<open>calculate_vocabulary_overlap\<close> partition each
  vocabulary: shared plus unique-to-first is the size of the first vocabulary, shared
  plus unique-to-second is the size of the second, and the size of the union (the
  Jaccard denominator) is the sum of the three counts.
\<close>

theorem overlap_counts_partition:
  "shared_words (calculate_vocabulary_overlap tokens1 tokens2)
     + unique_to_first (calculate_vocabulary_overlap tokens1 tokens2) = card (set tokens1)
   \<and> shared_words (calculate_vocabulary_overlap tokens1 tokens2)
     + unique_to_second (calculate_vocabulary_overlap tokens1 tokens2) = card (set tokens2)
   \<and> card (set tokens1 \<union> set tokens2)
     = shared_words (calculate_vocabulary_overlap tokens1 tokens2)
       + unique_to_first (calculate_vocabulary_overlap tokens1 tokens2)
       + unique_to_second (calculate_vocabulary_overlap tokens1 tokens2)
   \<and> jaccard_similarity (calculate_vocabulary_overlap tokens1 tokens2)
     = py_round
         (if shared_words (calculate_vocabulary_overlap tokens1 tokens2)
               + unique_to_first (calculate_vocabulary_overlap tokens1 tokens2)
               + unique_to_second (calculate_vocabulary_overlap tokens1 tokens2) = 0
          then 0
          else fl (of_nat (shared_words (calculate_vocabulary_overlap tokens1 tokens2))
                   / of_nat (shared_words (calculate_vocabulary_overlap tokens1 tokens2)
                       + unique_to_first (calculate_vocabulary_overlap tokens1 tokens2)
                       + unique_to_second (calculate_vocabulary_overlap tokens1 tokens2)))) 4"
proof -
  have second: "card (set tokens1 \<inter> set tokens2) + card (set tokens2 - set tokens1)
                = card (set tokens2)"
    using card_partition_first [of tokens2 tokens1] by (simp add: Int_commute)
  have empty: "set tokens1 \<union> set tokens2 = {} \<longleftrightarrow> card (set tokens1 \<union> set tokens2) = 0"
    by simp
  show ?thesis
    unfolding calculate_vocabulary_overlap_def Let_def vocabulary_overlap.simps
    using card_partition_first [of tokens1 tokens2] second
      card_partition_union [of tokens1 tokens2] empty
    by (simp del: Un_empty set_empty card_0_eq)
qed

theorem overlap_counts_partition_witness:
  "shared_words (calculate_vocabulary_overlap [''good'', ''truth''] [''truth'', ''form'', ''virtue'']) = 1
   \<and> unique_to_first (calculate_vocabulary_overlap [''good'', ''truth''] [''truth'', ''form'', ''virtue'']) = 1
   \<and> unique_to_second (calculate_vocabulary_overlap [''good'', ''truth''] [''truth'', ''form'', ''virtue'']) = 2
   \<and> card (set [''good'', ''truth''] \<union> set [''truth'', ''form'', ''virtue'']) = 4
   \<and> jaccard_similarity (calculate_vocabulary_overlap [''good'', ''truth''] [''truth'', ''form'', ''virtue'']) = 1 / 4"
proof -
  have s: "shared_words (calculate_vocabulary_overlap [''good'', ''truth''] [''truth'', ''form'', ''virtue'']) = 1"
    by (simp add: overlap_eval)
  have u: "unique_to_first (calculate_vocabulary_overlap [''good'', ''truth''] [''truth'', ''form'', ''virtue'']) = 1"
    by (simp add: overlap_eval)
  have v: "unique_to_second (calculate_vocabulary_overlap [''good'', ''truth''] [''truth'', ''form'', ''virtue'']) = 2"
    by (simp add: overlap_eval)
  have r: "py_round (1 / 4) 4 = 1 / 4"
    by (simp add: py_round_def fl_eval)
  from overlap_counts_partition [of "[''good'', ''truth'']" "[''truth'', ''form'', ''virtue'']"]
  show ?thesis
    unfolding s u v by (simp add: r)
qed

text \<open>
  Claim C6. \<open>calculate_vocabulary_overlap\<close> returns the Jaccard similarity
  \<open>|intersection| / |union|\<close> rounded to 4 decimals, 0 when both vocabularies are empty,
  and the two directional percentages \<open>shared / |vocabulary| * 100\<close> rounded to 2
  decimals, 0 for an empty vocabulary. The quotient, the product and the rounding are
  those of Python floats: each rounded value is the float nearest to a decimal with that
  many digits, and the decimal is within half a unit of its last digit, and the error of
  the float operations, of the exact value. For the vocabularies good, truth, form and
  truth, form, virtue it returns 2 shared words, Jaccard 0.5 and the float 66.67 for both
  percentages.
\<close>

theorem overlap_measures:
  "jaccard_similarity (calculate_vocabulary_overlap tokens1 tokens2)
     = (if set tokens1 \<union> set tokens2 = {} then 0
        else py_round (fl (of_nat (card (set tokens1 \<inter> set tokens2))
                           / of_nat (card (set tokens1 \<union> set tokens2)))) 4)
   \<and> overlap_percentage_first (calculate_vocabulary_overlap tokens1 tokens2)
     = (if set tokens1 = {} then 0
        else py_round (fl (fl (of_nat (card (set tokens1 \<inter> set tokens2))
                               / of_nat (card (set tokens1))) * 100)) 2)
   \<and> overlap_percentage_second (calculate_vocabulary_overlap tokens1 tokens2)
     = (if set tokens2 = {} then 0
        else py_round (fl (fl (of_nat (card (set tokens1 \<inter> set tokens2))
                               / of_nat (card (set tokens2))) * 100)) 2)
   \<and> (set tokens1 \<union> set tokens2 \<noteq> {} \<longrightarrow>
        (\<exists>k. jaccard_similarity (calculate_vocabulary_overlap tokens1 tokens2)
                = fl (of_int k / 10 ^ 4)
             \<and> \<bar>(of_int k :: rat) / 10 ^ 4
                 - of_nat (card (set tokens1 \<inter> set tokens2))
                   / of_nat (card (set tokens1 \<union> set tokens2))\<bar>
               \<le> 1 / 20000 + 1 / 2 ^ 53))
   \<and> (set tokens1 \<noteq> {} \<longrightarrow>
        (\<exists>k. overlap_percentage_first (calculate_vocabulary_overlap tokens1 tokens2)
                = fl (of_int k / 10 ^ 2)
             \<and> \<bar>(of_int k :: rat) / 10 ^ 2
                 - of_nat (card (set tokens1 \<inter> set tokens2)) / of_nat (card (set tokens1)) * 100\<bar>
               \<le> 1 / 200 + 1 / 2 ^ 45))
   \<and> (set tokens2 \<noteq> {} \<longrightarrow>
        (\<exists>k. overlap_percentage_second (calculate_vocabulary_overlap tokens1 tokens2)
                = fl (of_int k / 10 ^ 2)
             \<and> \<bar>(of_int k :: rat) / 10 ^ 2
                 - of_nat (card (set tokens1 \<inter> set tokens2)) / of_nat (card (set tokens2)) * 100\<bar>
               \<le> 1 / 200 + 1 / 2 ^ 45))
   \<and> shared_words (calculate_vocabulary_overlap [''good'', ''truth'', ''form'']
         [''truth'', ''form'', ''virtue'']) = 2
   \<and> jaccard_similarity (calculate_vocabulary_overlap [''good'', ''truth'', ''form'']
         [''truth'', ''form'', ''virtue'']) = 5 / 10
   \<and> overlap_percentage_first (calculate_vocabulary_overlap [''good'', ''truth'', ''form'']
         [''truth'', ''form'', ''virtue'']) = fl (6667 / 100)
   \<and> overlap_percentage_second (calculate_vocabulary_overlap [''good'', ''truth'', ''form'']
         [''truth'', ''form'', ''virtue'']) = fl (6667 / 100)"
proof -
  let ?r = "calculate_vocabulary_overlap tokens1 tokens2"
  let ?s = "card (set tokens1 \<inter> set tokens2)"
  have j: "jaccard_similarity ?r
     = (if set tokens1 \<union> set tokens2 = {} then 0
        else py_round (fl (of_nat ?s / of_nat (card (set tokens1 \<union> set tokens2)))) 4)"
    by (simp add: calculate_vocabulary_overlap_def Let_def)
  have f: "overlap_percentage_first ?r
     = (if set tokens1 = {} then 0
        else py_round (fl (fl (of_nat ?s / of_nat (card (set tokens1))) * 100)) 2)"
    by (simp add: calculate_vocabulary_overlap_def Let_def)
  have g: "overlap_percentage_second ?r
     = (if set tokens2 = {} then 0
        else py_round (fl (fl (of_nat ?s / of_nat (card (set tokens2))) * 100)) 2)"
    by (simp add: calculate_vocabulary_overlap_def Let_def)
  have jr: "set tokens1 \<union> set tokens2 \<noteq> {} \<longrightarrow>
        (\<exists>k. jaccard_similarity ?r = fl (of_int k / 10 ^ 4)
             \<and> \<bar>(of_int k :: rat) / 10 ^ 4 - of_nat ?s / of_nat (card (set tokens1 \<union> set tokens2))\<bar>
               \<le> 1 / 20000 + 1 / 2 ^ 53)"
  proof
    assume ne: "set tokens1 \<union> set tokens2 \<noteq> {}"
    then have "0 < card (set tokens1 \<union> set tokens2)"
      by (simp add: card_gt_0_iff)
    moreover have "?s \<le> card (set tokens1 \<union> set tokens2)"
      by (rule card_mono) auto
    ultimately have "0 \<le> (of_nat ?s :: rat) / of_nat (card (set tokens1 \<union> set tokens2))"
      and "(of_nat ?s :: rat) / of_nat (card (set tokens1 \<union> set tokens2)) \<le> 1"
      by (simp_all only: quotient_unit_interval)
    moreover from ne have "jaccard_similarity ?r
        = py_round (fl (of_nat ?s / of_nat (card (set tokens1 \<union> set tokens2)))) 4"
      by (simp only: j if_False)
    ultimately show
      "\<exists>k. jaccard_similarity ?r = fl (of_int k / 10 ^ 4)
         \<and> \<bar>(of_int k :: rat) / 10 ^ 4 - of_nat ?s / of_nat (card (set tokens1 \<union> set tokens2))\<bar>
           \<le> 1 / 20000 + 1 / 2 ^ 53"
      using rounded_quotient [of "of_nat ?s / of_nat (card (set tokens1 \<union> set tokens2))" 4]
      by simp
  qed
  have pct: "\<exists>k. py_round (fl (fl (of_nat ?s / of_nat (card (set ts))) * 100)) 2
                  = fl (of_int k / 10 ^ 2)
             \<and> \<bar>(of_int k :: rat) / 10 ^ 2 - of_nat ?s / of_nat (card (set ts)) * 100\<bar>
               \<le> 1 / 200 + 1 / 2 ^ 45"
    if "set ts \<noteq> {}" "?s \<le> card (set ts)" for ts :: "string list"
  proof -
    from that(1) have "0 < card (set ts)"
      by (simp add: card_gt_0_iff)
    with that(2) have "0 \<le> (of_nat ?s :: rat) / of_nat (card (set ts))"
      and "(of_nat ?s :: rat) / of_nat (card (set ts)) \<le> 1"
      by (simp_all only: quotient_unit_interval)
    from rounded_percentage [OF this, of 2] show ?thesis by simp
  qed
  have fr: "set tokens1 \<noteq> {} \<longrightarrow>
        (\<exists>k. overlap_percentage_first ?r = fl (of_int k / 10 ^ 2)
             \<and> \<bar>(of_int k :: rat) / 10 ^ 2 - of_nat ?s / of_nat (card (set tokens1)) * 100\<bar>
               \<le> 1 / 200 + 1 / 2 ^ 45)"
  proof
    assume ne: "set tokens1 \<noteq> {}"
    have "?s \<le> card (set tokens1)" by (rule card_mono) auto
    moreover from ne have "overlap_percentage_first ?r
        = py_round (fl (fl (of_nat ?s / of_nat (card (set tokens1))) * 100)) 2"
      by (simp only: f if_False)
    ultimately show
      "\<exists>k. overlap_percentage_first ?r = fl (of_int k / 10 ^ 2)
             \<and> \<bar>(of_int k :: rat) / 10 ^ 2 - of_nat ?s / of_nat (card (set tokens1)) * 100\<bar>
               \<le> 1 / 200 + 1 / 2 ^ 45"
      using pct [OF ne] by simp
  qed
  have gr: "set tokens2 \<noteq> {} \<longrightarrow>
        (\<exists>k. overlap_percentage_second ?r = fl (of_int k / 10 ^ 2)
             \<and> \<bar>(of_int k :: rat) / 10 ^ 2 - of_nat ?s / of_nat (card (set tokens2)) * 100\<bar>
               \<le> 1 / 200 + 1 / 2 ^ 45)"
  proof
    assume ne: "set tokens2 \<noteq> {}"
    have "?s \<le> card (set tokens2)" by (rule card_mono) auto
    moreover from ne have "overlap_percentage_second ?r
        = py_round (fl (fl (of_nat ?s / of_nat (card (set tokens2))) * 100)) 2"
      by (simp only: g if_False)
    ultimately show
      "\<exists>k. overlap_percentage_second ?r = fl (of_int k / 10 ^ 2)
             \<and> \<bar>(of_int k :: rat) / 10 ^ 2 - of_nat ?s / of_nat (card (set tokens2)) * 100\<bar>
               \<le> 1 / 200 + 1 / 2 ^ 45"
      using pct [OF ne] by simp
  qed
  have e1: "shared_words (calculate_vocabulary_overlap [''good'', ''truth'', ''form'']
         [''truth'', ''form'', ''virtue'']) = 2"
    by (simp add: overlap_eval)
  have half: "py_round (1 / 2) 4 = 1 / 2"
    by (simp add: py_round_def fl_eval)
  have e2: "jaccard_similarity (calculate_vocabulary_overlap [''good'', ''truth'', ''form'']
         [''truth'', ''form'', ''virtue'']) = 5 / 10"
    by (simp add: overlap_eval half)
  have e3: "overlap_percentage_first (calculate_vocabulary_overlap [''good'', ''truth'', ''form'']
         [''truth'', ''form'', ''virtue'']) = fl (6667 / 100)"
    by (simp add: overlap_eval py_round_2_3_percent)
  have e4: "overlap_percentage_second (calculate_vocabulary_overlap [''good'', ''truth'', ''form'']
         [''truth'', ''form'', ''virtue'']) = fl (6667 / 100)"
    by (simp add: overlap_eval py_round_2_3_percent)
  from j f g jr fr gr e1 e2 e3 e4 show ?thesis
    by (intro conjI)
qed

theorem overlap_measures_witness:
  "jaccard_similarity (calculate_vocabulary_overlap [''a''] [''a'', ''b'']) = 1 / 2
   \<and> overlap_percentage_first (calculate_vocabulary_overlap [''a''] [''a'', ''b'']) = 100
   \<and> overlap_percentage_second (calculate_vocabulary_overlap [''a''] [''a'', ''b'']) = 50
   \<and> jaccard_similarity (calculate_vocabulary_overlap [] ([] :: string list)) = 0"
proof -
  have r1: "py_round (1 / 2) 4 = 1 / 2" by (simp add: py_round_def fl_eval)
  have r2: "py_round 100 2 = 100" by (simp add: py_round_def fl_eval)
  have r3: "py_round 50 2 = 50" by (simp add: py_round_def fl_eval)
  have c: "card (set [''a''] \<inter> set [''a'', ''b'']) = 1" by (simp add: card_insert_if)
  have d: "card (set [''a''] \<union> set [''a'', ''b'']) = 2" by (simp add: card_insert_if)
  from overlap_measures [of "[''a'']" "[''a'', ''b'']"] overlap_measures [of "[]" "[]"]
  show ?thesis
    unfolding c d by (simp add: r1 r2 r3)
qed

text \<open>
  Claim C7. Swapping the two token sequences leaves the shared-word count and the
  Jaccard similarity unchanged and exchanges the two directional percentages; the two
  directional percentages of one call can differ.
\<close>

theorem overlap_symmetry:
  "shared_words (calculate_vocabulary_overlap A B) = shared_words (calculate_vocabulary_overlap B A)
   \<and> jaccard_similarity (calculate_vocabulary_overlap A B)
     = jaccard_similarity (calculate_vocabulary_overlap B A)
   \<and> overlap_percentage_first (calculate_vocabulary_overlap A B)
     = overlap_percentage_second (calculate_vocabulary_overlap B A)
   \<and> overlap_percentage_first (calculate_vocabulary_overlap [''a''] [''a'', ''b''])
     \<noteq> overlap_percentage_second (calculate_vocabulary_overlap [''a''] [''a'', ''b''])"
proof -
  have i: "set A \<inter> set B = set B \<inter> set A" and u: "set A \<union> set B = set B \<union> set A"
    by auto
  have sym: "shared_words (calculate_vocabulary_overlap A B) = shared_words (calculate_vocabulary_overlap B A)
   \<and> jaccard_similarity (calculate_vocabulary_overlap A B)
     = jaccard_similarity (calculate_vocabulary_overlap B A)
   \<and> overlap_percentage_first (calculate_vocabulary_overlap A B)
     = overlap_percentage_second (calculate_vocabulary_overlap B A)"
    unfolding calculate_vocabulary_overlap_def Let_def vocabulary_overlap.simps i u
    by simp
  have a: "overlap_percentage_first (calculate_vocabulary_overlap [''a''] [''a'', ''b'']) = 100"
     by (simp add: overlap_eval py_round_def fl_eval)
  have b: "overlap_percentage_second (calculate_vocabulary_overlap [''a''] [''a'', ''b'']) = 50"
     by (simp add: overlap_eval py_round_def fl_eval)
  show ?thesis
    using sym unfolding a b by simp
qed

theorem overlap_symmetry_witness:
  "shared_words (calculate_vocabulary_overlap [''a'', ''b''] [''a'']) = 1
   \<and> overlap_percentage_second (calculate_vocabulary_overlap [''a'', ''b''] [''a'']) = 100"
proof -
  have s: "shared_words (calculate_vocabulary_overlap [''a''] [''a'', ''b'']) = 1"
     by (simp add: overlap_eval py_round_def fl_eval)
  have a: "overlap_percentage_first (calculate_vocabulary_overlap [''a''] [''a'', ''b'']) = 100"
     by (simp add: overlap_eval py_round_def fl_eval)
  from overlap_symmetry [of "[''a'']" "[''a'', ''b'']"] show ?thesis
    unfolding s a by simp
qed

section \<open>Descriptive statistics\<close>

text \<open>
  Claim C8. For the empty sentence list \<open>calculate_sentence_stats\<close> returns the empty
  dictionary, and for the empty token sequence \<open>calculate_word_stats\<close> returns the empty
  dictionary; neither has a raising path there, whatever \<open>numpy\<close> computes. Only the
  empty input gives the empty dictionary.
\<close>

theorem empty_input_empty_stats:
  "calculate_sentence_stats np [] = [] \<and> calculate_word_stats np [] = []
   \<and> (calculate_sentence_stats np sents = [] \<longleftrightarrow> sents = [])
   \<and> (calculate_word_stats np tokens = [] \<longleftrightarrow> tokens = [])"
  by (simp add: calculate_sentence_stats_def calculate_word_stats_def Let_def)

theorem empty_input_empty_stats_witness:
  "calculate_sentence_stats
     \<lparr> np_mean = (\<lambda>xs. 0), np_median = (\<lambda>xs. 0), np_std = (\<lambda>xs. 0), np_round = (\<lambda>x n. x) \<rparr>
     [''It is so.''] \<noteq> []
   \<and> calculate_word_stats
     \<lparr> np_mean = (\<lambda>xs. 0), np_median = (\<lambda>xs. 0), np_std = (\<lambda>xs. 0), np_round = (\<lambda>x n. x) \<rparr>
     [''virtue''] \<noteq> []
   \<and> length (calculate_sentence_stats
     \<lparr> np_mean = (\<lambda>xs. 0), np_median = (\<lambda>xs. 0), np_std = (\<lambda>xs. 0), np_round = (\<lambda>x n. x) \<rparr>
     []) = 0"
  using empty_input_empty_stats
    [of "\<lparr> np_mean = (\<lambda>xs. 0), np_median = (\<lambda>xs. 0), np_std = (\<lambda>xs. 0), np_round = (\<lambda>x n. x) \<rparr>"
      "[''It is so.'']" "[''virtue'']"]
  by simp

section \<open>Lexical diversity\<close>

lemma type_token_ratio_bounds:
  assumes "tokens \<noteq> []"
  shows "0 \<le> (of_nat (card (set tokens)) :: rat) / of_nat (length tokens)"
    and "(of_nat (card (set tokens)) :: rat) / of_nat (length tokens) \<le> 1"
proof -
  have "card (set tokens) \<le> length tokens"
    by (rule card_length)
  moreover from assms have "0 < length tokens" by simp
  ultimately show "0 \<le> (of_nat (card (set tokens)) :: rat) / of_nat (length tokens)"
    and "(of_nat (card (set tokens)) :: rat) / of_nat (length tokens) \<le> 1"
    by (simp_all only: quotient_unit_interval)
qed

lemma nearly_distinct_tokens_length:
  "length nearly_distinct_tokens = 20001"
  by (simp add: nearly_distinct_tokens_def)

lemma nearly_distinct_tokens_card:
  "card (set nearly_distinct_tokens) = 20000"
proof -
  let ?f = "\<lambda>n. replicate (Suc n) CHR ''a''"
  have "''a'' = ?f 0" by simp
  then have "''a'' \<in> ?f ` {0..<20000}" by (intro image_eqI [where x = 0]) simp_all
  then have "set nearly_distinct_tokens = ?f ` {0..<20000}"
    by (auto simp: nearly_distinct_tokens_def)
  moreover have "inj_on ?f {0..<20000}"
  proof (rule inj_onI)
    fix m n :: nat
    assume "?f m = ?f n"
    then have "length (?f m) = length (?f n)" by (rule arg_cong)
    then show "m = n" by simp
  qed
  then have "card (?f ` {0..<20000}) = card {0..<20000::nat}"
    by (rule card_image)
  ultimately show ?thesis by simp
qed

lemma nearly_distinct_tokens_not_distinct:
  "\<not> distinct nearly_distinct_tokens"
  using nearly_distinct_tokens_card nearly_distinct_tokens_length distinct_card by fastforce

lemma fl_nearly_one: "fl (20000 / 20001) = 9006748917295127 / 2 ^ 53"
  using fl_at [of "-1" "20000 / 20001"] by (simp add: fl_eval)

lemma nearly_distinct_tokens_ttr:
  "map_of (calculate_lexical_diversity nearly_distinct_tokens) ''ttr'' = Some 1"
proof -
  have "py_round (fl (20000 / 20001)) 4 = 1"
    by (simp add: fl_nearly_one py_round_def fl_eval)
  then show ?thesis
    by (simp add: calculate_lexical_diversity_def Let_def nearly_distinct_tokens_card
        nearly_distinct_tokens_length)
qed

text \<open>
  Claim C5 as stated fails twice. The dictionary returned for the empty sequence has no
  \<open>mtld\<close> entry, so not every token sequence gets all four fields; and the returned
  type-token ratio is rounded to 4 decimals, so it is 1 for a sequence of 20001 tokens
  of which two are equal.
\<close>

theorem lexical_diversity_counterexample:
  "map_of (calculate_lexical_diversity ([] :: string list)) ''mtld'' = None
   \<and> map_of (calculate_lexical_diversity nearly_distinct_tokens) ''ttr'' = Some 1
   \<and> \<not> distinct nearly_distinct_tokens"
  using nearly_distinct_tokens_ttr nearly_distinct_tokens_not_distinct
  by (simp add: calculate_lexical_diversity_def)

text \<open>
  Claim C5, amended. For every non-empty token sequence \<open>calculate_lexical_diversity\<close>
  returns exactly the four fields type-token ratio, unique count, total count and MTLD.
  The type-token ratio is the float quotient of unique count by total count rounded to 4
  decimals by \<open>round\<close>: the float nearest to a decimal of 4 digits that is within 0.00005,
  and the error of one float, of the exact ratio. It lies between 0 and 1, is 1 when all
  tokens are distinct, and is 1 only when the exact ratio is at least 0.9999. For the
  empty sequence the function returns type-token ratio 0, unique count 0 and total
  count 0.
\<close>

theorem lexical_diversity_fields:
  "(tokens \<noteq> [] \<longrightarrow>
      map fst (calculate_lexical_diversity tokens) = [''ttr'', ''unique_words'', ''total_words'', ''mtld'']
      \<and> map_of (calculate_lexical_diversity tokens) ''ttr''
          = Some (py_round (fl (of_nat (card (set tokens)) / of_nat (length tokens))) 4)
      \<and> map_of (calculate_lexical_diversity tokens) ''unique_words'' = Some (of_nat (card (set tokens)))
      \<and> map_of (calculate_lexical_diversity tokens) ''total_words'' = Some (of_nat (length tokens))
      \<and> map_of (calculate_lexical_diversity tokens) ''mtld''
          = Some (py_round (fl (calculate_mtld tokens default_threshold)) 2)
      \<and> (\<exists>ttr k. map_of (calculate_lexical_diversity tokens) ''ttr'' = Some ttr
            \<and> ttr = fl (of_int k / 10 ^ 4)
            \<and> \<bar>(of_int k :: rat) / 10 ^ 4 - of_nat (card (set tokens)) / of_nat (length tokens)\<bar>
                \<le> 1 / 20000 + 1 / 2 ^ 53
            \<and> 0 \<le> ttr \<and> ttr \<le> 1
            \<and> (distinct tokens \<longrightarrow> ttr = 1)
            \<and> (ttr = 1 \<longrightarrow> 9999 / 10000 \<le> (of_nat (card (set tokens)) :: rat) / of_nat (length tokens))))
   \<and> map_of (calculate_lexical_diversity ([] :: 'a list)) ''ttr'' = Some 0
   \<and> map_of (calculate_lexical_diversity ([] :: 'a list)) ''unique_words'' = Some 0
   \<and> map_of (calculate_lexical_diversity ([] :: 'a list)) ''total_words'' = Some 0"
proof -
  let ?x = "(of_nat (card (set tokens)) :: rat) / of_nat (length tokens)"
  let ?ttr = "py_round (fl ?x) 4"
  have empty: "calculate_lexical_diversity ([] :: 'a list)
       = [(''ttr'', 0), (''unique_words'', 0), (''total_words'', 0)]"
    by (simp add: calculate_lexical_diversity_def)
  have nonempty: "calculate_lexical_diversity tokens
       = [(''ttr'', ?ttr), (''unique_words'', of_nat (card (set tokens))),
          (''total_words'', of_nat (length tokens)),
          (''mtld'', py_round (fl (calculate_mtld tokens default_threshold)) 2)]"
    if "tokens \<noteq> []"
    using that by (simp add: calculate_lexical_diversity_def Let_def)
  have rounded: "\<exists>k. ?ttr = fl (of_int k / 10 ^ 4)
      \<and> \<bar>(of_int k :: rat) / 10 ^ 4 - ?x\<bar> \<le> 1 / 20000 + 1 / 2 ^ 53"
    if "tokens \<noteq> []"
    using rounded_quotient [OF type_token_ratio_bounds [OF that], of 4] by simp
  have float_range: "0 \<le> fl ?x" "fl ?x \<le> 1" if "tokens \<noteq> []"
    using type_token_ratio_bounds [OF that] by (simp_all add: fl_nonneg fl_le_one)
  have range: "0 \<le> ?ttr \<and> ?ttr \<le> 1" if "tokens \<noteq> []"
    using float_range [OF that] by (rule py_round_unit_interval)
  have all_distinct: "?ttr = 1" if "tokens \<noteq> []" "distinct tokens"
  proof -
    from that have "?x = 1" by (simp add: distinct_card)
    then show ?thesis by simp
  qed
  have only_if: "9999 / 10000 \<le> ?x" if "tokens \<noteq> []" "?ttr = 1"
  proof -
    have e1: "\<bar>?ttr - fl ?x\<bar> \<le> 1 / 20000 + 1 / 9007199254740992"
      using py_round_error_unit [OF float_range [OF that(1)], of 4] by simp
    have e2: "\<bar>fl ?x - ?x\<bar> \<le> 1 / 9007199254740992"
      using fl_error_unit [OF type_token_ratio_bounds [OF that(1)]] by simp
    from e1 e2 that(2) show ?thesis by linarith
  qed
  show ?thesis
  proof (cases "tokens = []")
    case True
    with empty show ?thesis by simp
  next
    case False
    from rounded [OF False] obtain k where k: "?ttr = fl (of_int k / 10 ^ 4)"
      "\<bar>(of_int k :: rat) / 10 ^ 4 - ?x\<bar> \<le> 1 / 20000 + 1 / 2 ^ 53"
      by blast
    have "\<exists>ttr k. map_of (calculate_lexical_diversity tokens) ''ttr'' = Some ttr
            \<and> ttr = fl (of_int k / 10 ^ 4)
            \<and> \<bar>(of_int k :: rat) / 10 ^ 4 - ?x\<bar> \<le> 1 / 20000 + 1 / 2 ^ 53
            \<and> 0 \<le> ttr \<and> ttr \<le> 1
            \<and> (distinct tokens \<longrightarrow> ttr = 1)
            \<and> (ttr = 1 \<longrightarrow> 9999 / 10000 \<le> ?x)"
    proof (intro exI [of _ ?ttr] exI [of _ k] conjI impI)
      show "map_of (calculate_lexical_diversity tokens) ''ttr'' = Some ?ttr"
        by (simp add: nonempty [OF False])
    qed (use k range [OF False] all_distinct [OF False] only_if [OF False] in simp_all)
    with empty nonempty [OF False] show ?thesis by simp
  qed
qed

lemma fl_5_6: "fl (5 / 6) = 7505999378950827 / 2 ^ 53"
  using fl_at [of "-1" "5 / 6"] by (simp add: fl_eval)

theorem lexical_diversity_fields_witness:
  "map fst (calculate_lexical_diversity [''the'', ''cat'', ''sat'', ''on'', ''the'', ''mat''])
     = [''ttr'', ''unique_words'', ''total_words'', ''mtld'']
   \<and> map_of (calculate_lexical_diversity [''the'', ''cat'', ''sat'', ''on'', ''the'', ''mat'']) ''ttr''
     = Some (fl (8333 / 10000))
   \<and> map_of (calculate_lexical_diversity [''the'', ''cat'', ''sat'', ''on'', ''the'', ''mat''])
       ''unique_words'' = Some 5
   \<and> map_of (calculate_lexical_diversity [''the'', ''cat'', ''sat'', ''on'', ''the'', ''mat''])
       ''total_words'' = Some 6"
proof -
  let ?t = "[''the'', ''cat'', ''sat'', ''on'', ''the'', ''mat'']"
  have c: "card (set ?t) = 5" by (simp add: card_insert_if)
  have r: "py_round (fl (5 / 6)) 4 = fl (8333 / 10000)"
    by (simp add: fl_5_6 py_round_def fl_eval)
  have ne: "?t \<noteq> []" by simp
  note fields = lexical_diversity_fields [of ?t, THEN conjunct1, rule_format, OF ne]
  from fields have "map fst (calculate_lexical_diversity ?t)
        = [''ttr'', ''unique_words'', ''total_words'', ''mtld'']"
    by (rule conjunct1)
  moreover from fields have "map_of (calculate_lexical_diversity ?t) ''ttr'' = Some (fl (8333 / 10000))"
    unfolding c by (simp add: r)
  moreover from fields have "map_of (calculate_lexical_diversity ?t) ''unique_words'' = Some 5"
    unfolding c by simp
  moreover from fields have "map_of (calculate_lexical_diversity ?t) ''total_words'' = Some 6"
    by simp
  ultimately show ?thesis by (intro conjI)
qed

text \<open>For 160 equal tokens the type-token ratio is 0.0063, as \<open>round(1/160, 4)\<close> is.\<close>

lemma lexical_diversity_at_tie:
  "map_of (calculate_lexical_diversity (replicate 160 ''a'')) ''ttr'' = Some (fl (63 / 10000))"
proof -
  have "set (replicate 160 ''a'') = {''a''}" by simp
  then have "card (set (replicate 160 ''a'')) = 1" by simp
  then show ?thesis
    by (simp add: calculate_lexical_diversity_def Let_def py_round_at_ties(1))
qed

section \<open>Author comparison\<close>

lemma true_div_zero [simp]: "true_div a 0 = Inl ZeroDivisionError"
  by (simp add: true_div_def)

lemma true_div_pos: "0 < b \<Longrightarrow> true_div a b = Inr (fl (of_nat a / of_nat b))"
  by (simp add: true_div_def)

text \<open>
  \<open>compare_author_vocabularies\<close> raises exactly when the first group has no lemmatized
  token at all: then the first vocabulary is empty, and one of the two divisions is by 0.
\<close>

lemma compare_author_vocabularies_raises_iff:
  "compare_author_vocabularies set_iter plato_texts aristotle_texts = Inl ZeroDivisionError
   \<longleftrightarrow> concat (map (\<lambda>(text_id, text_data). tokens_lemmatized text_data) plato_texts) = []"
proof (cases "concat (map (\<lambda>(text_id, text_data). tokens_lemmatized text_data) plato_texts) = []")
  case True
  then show ?thesis
    by (simp add: compare_author_vocabularies_def Let_def true_div_def split: sum.splits)
next
  case False
  define p where "p = concat (map (\<lambda>(text_id, text_data). tokens_lemmatized text_data) plato_texts)"
  define a where "a = concat (map (\<lambda>(text_id, text_data). tokens_lemmatized text_data) aristotle_texts)"
  from False have ne: "p \<noteq> []" by (simp only: p_def not_False_eq_True)
  then have "set p \<noteq> {}" by simp
  then have "0 < card (set p)" and "0 < card (set p \<union> set a)"
    by (simp_all add: card_gt_0_iff)
  then have "true_div (card (set p \<inter> set a)) (card (set p \<union> set a))
             = Inr (fl (of_nat (card (set p \<inter> set a)) / of_nat (card (set p \<union> set a))))"
    and "true_div (card (set p \<inter> set a)) (card (set p))
             = Inr (fl (of_nat (card (set p \<inter> set a)) / of_nat (card (set p))))"
    by (simp_all only: true_div_pos)
  with ne show ?thesis
    unfolding compare_author_vocabularies_def Let_def p_def [symmetric] a_def [symmetric]
    by simp
qed

lemma compare_author_vocabularies_returns:
  assumes "concat (map (\<lambda>(text_id, text_data). tokens_lemmatized text_data) plato_texts) \<noteq> []"
  shows "\<exists>c. compare_author_vocabularies set_iter plato_texts aristotle_texts = Inr c"
proof -
  define p where "p = concat (map (\<lambda>(text_id, text_data). tokens_lemmatized text_data) plato_texts)"
  define a where "a = concat (map (\<lambda>(text_id, text_data). tokens_lemmatized text_data) aristotle_texts)"
  from assms have "p \<noteq> []" by (simp only: p_def not_False_eq_True)
  then have "set p \<noteq> {}" by simp
  then have "0 < card (set p)" and "0 < card (set p \<union> set a)"
    by (simp_all add: card_gt_0_iff)
  then have "true_div (card (set p \<inter> set a)) (card (set p \<union> set a))
             = Inr (fl (of_nat (card (set p \<inter> set a)) / of_nat (card (set p \<union> set a))))"
    and "true_div (card (set p \<inter> set a)) (card (set p))
             = Inr (fl (of_nat (card (set p \<inter> set a)) / of_nat (card (set p))))"
    by (simp_all only: true_div_pos)
  then show ?thesis
    unfolding compare_author_vocabularies_def Let_def p_def [symmetric] a_def [symmetric]
    by simp
qed

text \<open>
  Claim C4 holds of the specification and fails on the code: for two empty document
  groups, for groups whose documents have no lemmatized token, and for an empty first
  group against a non-empty second one, \<open>compare_author_vocabularies\<close> raises
  \<open>ZeroDivisionError\<close> instead of returning a record with fallback percentages.
\<close>

theorem compare_author_vocabularies_empty_raises:
  "compare_author_vocabularies set_iter [] [] = Inl ZeroDivisionError
   \<and> compare_author_vocabularies set_iter
        [(''Plato Republic'', text_of_tokens [])] [(''Aristotle Gov'', text_of_tokens [])]
      = Inl ZeroDivisionError
   \<and> compare_author_vocabularies set_iter
        [] [(''Aristotle Gov'', text_of_tokens [''virtue''])]
      = Inl ZeroDivisionError"
  by (simp add: compare_author_vocabularies_def Let_def text_of_tokens_def true_div_def)

text \<open>Two iteration orders: ascending, and descending.\<close>

lemma iteration_order_sorted:
  "iteration_order (sorted_list_of_set :: string set \<Rightarrow> string list)"
  by (simp add: iteration_order_def)

lemma iteration_order_reversed:
  "iteration_order (rev \<circ> (sorted_list_of_set :: string set \<Rightarrow> string list))"
  by (simp add: iteration_order_def)

lemma sorted_list_of_pair:
  "a < b \<Longrightarrow> sorted_list_of_set {a, b} = [a, b]"
  by (simp add: sorted_list_of_set_insert_remove less_imp_le not_le insort_is_Cons)

lemma good_truth_shared:
  "set [''good'', ''truth''] \<inter> set [''truth'', ''good''] = {''good'', ''truth''}"
  by auto

lemma good_truth_sorted:
  "sorted_list_of_set {''good'', ''truth''} = [''good'', ''truth'']"
  by (rule sorted_list_of_pair) simp

text \<open>Every field but the ranked list of shared tokens is independent of the order.\<close>

lemma compare_author_vocabularies_other_fields:
  assumes "compare_author_vocabularies iter1 plato_texts aristotle_texts = Inr r1"
    and "compare_author_vocabularies iter2 plato_texts aristotle_texts = Inr r2"
  shows "r1\<lparr>top_shared_words := []\<rparr> = r2\<lparr>top_shared_words := []\<rparr>"
  using assms unfolding compare_author_vocabularies_def Let_def
  by (auto split: sum.splits)

text \<open>
  Claim C3 holds of the specification and fails on the code. The shared tokens good and
  truth both have summed frequency 2. A run whose set iteration yields good first ranks
  good before truth; a run whose set iteration yields truth first ranks truth before
  good: the two runs return different records for the same document groups.
\<close>

theorem shared_ranking_follows_set_order:
  "iteration_order (sorted_list_of_set :: string set \<Rightarrow> string list)
   \<and> iteration_order (rev \<circ> (sorted_list_of_set :: string set \<Rightarrow> string list))
   \<and> (\<exists>r. compare_author_vocabularies sorted_list_of_set
          [(''Plato Republic'', text_of_tokens [''good'', ''truth''])]
          [(''Aristotle Gov'', text_of_tokens [''truth'', ''good''])] = Inr r
        \<and> map word (top_shared_words r) = [''good'', ''truth''])
   \<and> (\<exists>r. compare_author_vocabularies (rev \<circ> sorted_list_of_set)
          [(''Plato Republic'', text_of_tokens [''good'', ''truth''])]
          [(''Aristotle Gov'', text_of_tokens [''truth'', ''good''])] = Inr r
        \<and> map word (top_shared_words r) = [''truth'', ''good''])
   \<and> compare_author_vocabularies sorted_list_of_set
          [(''Plato Republic'', text_of_tokens [''good'', ''truth''])]
          [(''Aristotle Gov'', text_of_tokens [''truth'', ''good''])]
     \<noteq> compare_author_vocabularies (rev \<circ> sorted_list_of_set)
          [(''Plato Republic'', text_of_tokens [''good'', ''truth''])]
          [(''Aristotle Gov'', text_of_tokens [''truth'', ''good''])]"
proof -
  let ?P = "[(''Plato Republic'', text_of_tokens [''good'', ''truth''])]"
  let ?A = "[(''Aristotle Gov'', text_of_tokens [''truth'', ''good''])]"
  have asc: "\<exists>r. compare_author_vocabularies sorted_list_of_set ?P ?A = Inr r
        \<and> map word (top_shared_words r) = [''good'', ''truth'']"
    unfolding compare_author_vocabularies_def Let_def text_of_tokens_def
    by (simp add: good_truth_shared good_truth_sorted true_div_def Counter_def counter_get_def
        card_insert_if del: set_simps)
  have desc: "\<exists>r. compare_author_vocabularies (rev \<circ> sorted_list_of_set) ?P ?A = Inr r
        \<and> map word (top_shared_words r) = [''truth'', ''good'']"
    unfolding compare_author_vocabularies_def Let_def text_of_tokens_def
    by (simp add: good_truth_shared good_truth_sorted true_div_def Counter_def counter_get_def
        card_insert_if del: set_simps)
  from asc desc have "compare_author_vocabularies sorted_list_of_set ?P ?A
      \<noteq> compare_author_vocabularies (rev \<circ> sorted_list_of_set) ?P ?A"
    by auto
  with iteration_order_sorted iteration_order_reversed asc desc show ?thesis
    by (intro conjI)
qed

theorem shared_ranking_follows_set_order_witness:
  "finite {''good'', ''truth''}
   \<and> set (sorted_list_of_set {''good'', ''truth''}) = {''good'', ''truth''}
   \<and> set ((rev \<circ> sorted_list_of_set) {''good'', ''truth''}) = {''good'', ''truth''}"
proof -
  have fin: "finite {''good'', ''truth''}" by simp
  from shared_ranking_follows_set_order
  have "iteration_order (sorted_list_of_set :: string set \<Rightarrow> string list)"
    and "iteration_order (rev \<circ> (sorted_list_of_set :: string set \<Rightarrow> string list))"
    by (rule conjunct1, rule conjunct2 [THEN conjunct1])
  then have "set (sorted_list_of_set {''good'', ''truth''}) = {''good'', ''truth''}"
    and "set ((rev \<circ> sorted_list_of_set) {''good'', ''truth''}) = {''good'', ''truth''}"
    unfolding iteration_order_def using fin by blast+
  with fin show ?thesis by (intro conjI)
qed

section \<open>Frequency ranking\<close>

subsection \<open>What a \<open>Counter\<close> holds\<close>

lemma first_occurrences_set [simp]: "set (first_occurrences xs) = set xs"
  by (induction xs) auto

lemma first_occurrences_distinct [simp]: "distinct (first_occurrences xs)"
  by (induction xs) auto

lemma counter_incr_keys:
  "map fst (counter_incr w items)
   = (if w \<in> fst ` set items then map fst items else map fst items @ [w])"
  by (induction items) (auto simp: rev_image_eqI)

lemma counter_incr_get:
  "counter_get (counter_incr w items) k = counter_get items k + (if k = w then 1 else 0)"
  by (induction items) (auto simp: counter_get_def)

lemma counter_fold_keys:
  "map fst (foldl (\<lambda>counts w. counter_incr w counts) items ts)
   = map fst items @ filter (\<lambda>w. w \<notin> fst ` set items) (first_occurrences ts)"
proof (induction ts arbitrary: items)
  case Nil
  then show ?case by simp
next
  case (Cons t ts)
  show ?case
  proof (cases "t \<in> fst ` set items")
    case True
    then have keys: "map fst (counter_incr t items) = map fst items"
      by (simp add: counter_incr_keys)
    then have "fst ` set (counter_incr t items) = fst ` set items"
      by (metis set_map)
    with True keys show ?thesis
      by (auto simp: Cons.IH intro!: filter_cong)
  next
    case False
    then have keys: "map fst (counter_incr t items) = map fst items @ [t]"
      by (simp add: counter_incr_keys)
    then have "fst ` set (counter_incr t items) = insert t (fst ` set items)"
      by (metis Un_insert_right append_Nil2 list.simps(15) set_append set_map)
    with False keys show ?thesis
      by (auto simp: Cons.IH intro!: filter_cong)
  qed
qed

lemma counter_fold_get:
  "counter_get (foldl (\<lambda>counts w. counter_incr w counts) items ts) k
   = counter_get items k + count_list ts k"
  by (induction ts arbitrary: items) (auto simp: counter_incr_get)

lemma Counter_keys: "map fst (Counter ts) = first_occurrences ts"
  by (simp add: Counter_def counter_fold_keys)

lemma Counter_get: "counter_get (Counter ts) w = count_list ts w"
proof -
  have "counter_get [] w = 0"
    by (simp add: counter_get_def)
  then show ?thesis
    by (simp add: Counter_def counter_fold_get)
qed

lemma Counter_items:
  "Counter ts = map (\<lambda>w. (w, count_list ts w)) (first_occurrences ts)"
proof -
  have "distinct (map fst (Counter ts))"
    by (simp add: Counter_keys)
  then have "\<forall>(w, c) \<in> set (Counter ts). c = counter_get (Counter ts) w"
    by (auto simp: counter_get_def)
  then have "\<forall>p \<in> set (Counter ts). p = (fst p, count_list ts (fst p))"
    by (auto simp: Counter_get)
  then have "map (\<lambda>p. p) (Counter ts) = map (\<lambda>p. (fst p, count_list ts (fst p))) (Counter ts)"
    by (intro map_cong refl) auto
  also have "\<dots> = map (\<lambda>w. (w, count_list ts w)) (map fst (Counter ts))"
    by (simp add: comp_def)
  finally show ?thesis by (simp add: Counter_keys)
qed


subsection \<open>A stable sort refines the sort key by the input order\<close>

lemma insort_key_refined:
  assumes "sorted_wrt (\<lambda>a b. f a < f b \<or> (f a = f b \<and> Q a b)) ys"
    and "\<forall>y \<in> set ys. Q x y"
  shows "sorted_wrt (\<lambda>a b. f a < f b \<or> (f a = f b \<and> Q a b)) (insort_key f x ys)"
  using assms
proof (induction ys)
  case Nil
  then show ?case by simp
next
  case (Cons y ys)
  show ?case
  proof (cases "f x \<le> f y")
    case True
    have "f x < f z \<or> (f x = f z \<and> Q x z)" if "z \<in> set (y # ys)" for z
    proof -
      from Cons.prems(1) that have "f y \<le> f z" by auto
      with True have "f x \<le> f z" by simp
      moreover from Cons.prems(2) that have "Q x z" by auto
      ultimately show ?thesis by auto
    qed
    with True Cons.prems(1) show ?thesis by simp
  next
    case False
    from Cons.prems have "sorted_wrt (\<lambda>a b. f a < f b \<or> (f a = f b \<and> Q a b)) (insort_key f x ys)"
      by (intro Cons.IH) simp_all
    with False Cons.prems(1) show ?thesis
      by (auto simp: set_insort_key)
  qed
qed

lemma sort_key_refined:
  assumes "sorted_wrt Q xs"
  shows "sorted_wrt (\<lambda>a b. f a < f b \<or> (f a = f b \<and> Q a b)) (sort_key f xs)"
  using assms
proof (induction xs)
  case Nil
  then show ?case by simp
next
  case (Cons x xs)
  then have "sorted_wrt (\<lambda>a b. f a < f b \<or> (f a = f b \<and> Q a b)) (sort_key f xs)"
    and "\<forall>y \<in> set (sort_key f xs). Q x y"
    by simp_all
  then show ?case
    by (simp add: insort_key_refined)
qed

subsection \<open>First occurrences\<close>

lemma first_occurrences_in_order:
  "sorted_wrt (\<lambda>a b. first_index xs a < first_index xs b) (first_occurrences xs)"
proof (induction xs)
  case Nil
  then show ?case by simp
next
  case (Cons x xs)
  have "sorted_wrt (\<lambda>a b. first_index xs a < first_index xs b)
          (filter (\<lambda>y. y \<noteq> x) (first_occurrences xs))"
    using Cons.IH by (rule sorted_wrt_filter)
  then have "sorted_wrt (\<lambda>a b. first_index (x # xs) a < first_index (x # xs) b)
          (filter (\<lambda>y. y \<noteq> x) (first_occurrences xs))"
    by (rule sorted_wrt_mono_rel [rotated]) auto
  then show ?case by auto
qed

lemma Counter_in_order:
  "sorted_wrt (\<lambda>a b. first_index ts (fst a) < first_index ts (fst b)) (Counter ts)"
  using first_occurrences_in_order [of ts]
  by (simp add: Counter_items sorted_wrt_map)

lemma full_ranking_ranked:
  "sorted_wrt (ranks_before ts) (sort_key (\<lambda>(w, c). - int c) (Counter ts))"
proof -
  let ?f = "\<lambda>(w, c). - int c"
  have "sorted_wrt (\<lambda>a b. ?f a < ?f b
            \<or> (?f a = ?f b \<and> first_index ts (fst a) < first_index ts (fst b)))
          (sort_key ?f (Counter ts))"
    using Counter_in_order by (rule sort_key_refined)
  then show ?thesis
    by (rule sorted_wrt_mono_rel [rotated]) (auto simp: ranks_before_def split: prod.splits)
qed

lemma most_common_ranked:
  "sorted_wrt (ranks_before ts) (most_common n (Counter ts))"
  unfolding most_common_def using full_ranking_ranked by (rule sorted_wrt_take)

lemma most_common_subset:
  "set (most_common n (Counter ts)) \<subseteq> (\<lambda>w. (w, count_list ts w)) ` set ts"
proof -
  have "set (most_common n (Counter ts)) \<subseteq> set (Counter ts)"
    unfolding most_common_def using set_take_subset [of "nat n"] by fastforce
  then show ?thesis
    by (simp add: Counter_items)
qed

lemma most_common_distinct:
  "distinct (map fst (most_common n (Counter ts)))"
proof -
  have "distinct (first_occurrences ts)" by simp
  then have "distinct (map fst (Counter ts))" by (simp only: Counter_keys)
  then have "distinct (map fst (sort_key (\<lambda>(w, c). - int c) (Counter ts)))"
    by (simp add: distinct_map)
  then show ?thesis
    unfolding most_common_def by (simp add: take_map [symmetric] distinct_take del: take_map)
qed

lemma most_common_top:
  assumes "w \<in> set ts" and "w \<notin> fst ` set (most_common n (Counter ts))"
  shows "length (most_common n (Counter ts)) = nat n
         \<and> (\<forall>(w', c') \<in> set (most_common n (Counter ts)). count_list ts w \<le> c')"
proof -
  define s where "s = sort_key (\<lambda>(w, c). - int c) (Counter ts)"
  have r: "most_common n (Counter ts) = take (nat n) s"
    by (simp add: most_common_def s_def)
  have "(w, count_list ts w) \<in> set s"
    using assms(1) by (simp add: s_def Counter_items)
  moreover have "(w, count_list ts w) \<notin> set (take (nat n) s)"
    using assms(2) unfolding r by force
  ultimately have in_drop: "(w, count_list ts w) \<in> set (drop (nat n) s)"
    by (metis Un_iff append_take_drop_id set_append)
  then have "drop (nat n) s \<noteq> []" by auto
  then have len: "length (take (nat n) s) = nat n" by simp
  have "sorted_wrt (ranks_before ts) (take (nat n) s @ drop (nat n) s)"
    using full_ranking_ranked [of ts] by (simp add: s_def)
  then have "\<forall>a \<in> set (take (nat n) s). \<forall>b \<in> set (drop (nat n) s). ranks_before ts a b"
    by (simp only: sorted_wrt_append) blast
  with in_drop have "\<forall>a \<in> set (take (nat n) s). ranks_before ts a (w, count_list ts w)"
    by blast
  then have "\<forall>(w', c') \<in> set (take (nat n) s). count_list ts w \<le> c'"
    by (auto simp: ranks_before_def)
  with len show ?thesis by (simp only: r) 
qed

lemma count_list_filter:
  "P w \<Longrightarrow> count_list (filter P xs) w = count_list xs w"
  by (induction xs) auto

text \<open>
  Claim C2. With exclusion enabled, \<open>get_top_words\<close> returns at most \<open>n\<close> pairs; each
  pair is a token of the input that is not in the exclusion set, with the number of its
  occurrences, which is not zero; no token is returned twice; the pairs are in
  descending order of count and, among equal counts, in the order of first occurrence in
  the filtered sequence; every token left out has a count no larger than any returned
  one, and is left out only when \<open>n\<close> pairs are returned. For the tokens b, a, b, a, c the
  top 2 is (b, 2) before (a, 2).
\<close>

theorem get_top_words_ranking:
  "length (get_top_words tokens n True) \<le> nat n
   \<and> (\<forall>(w, c) \<in> set (get_top_words tokens n True).
         w \<in> set tokens \<and> w \<notin> common \<and> c = count_list tokens w \<and> 0 < c)
   \<and> distinct (map fst (get_top_words tokens n True))
   \<and> sorted_wrt (ranks_before (filter (\<lambda>t. t \<notin> common) tokens)) (get_top_words tokens n True)
   \<and> (\<forall>w \<in> set tokens. w \<notin> common \<and> w \<notin> fst ` set (get_top_words tokens n True) \<longrightarrow>
         length (get_top_words tokens n True) = nat n
         \<and> (\<forall>(w', c') \<in> set (get_top_words tokens n True). count_list tokens w \<le> c'))
   \<and> get_top_words [''b'', ''a'', ''b'', ''a'', ''c''] 2 True = [(''b'', 2), (''a'', 2)]"
proof -
  define ft where "ft = filter (\<lambda>t. t \<notin> common) tokens"
  have r: "get_top_words tokens n True = most_common n (Counter ft)"
    by (simp add: get_top_words_def ft_def)
  have len: "length (get_top_words tokens n True) \<le> nat n"
    by (simp add: r most_common_def)
  have members: "\<forall>(w, c) \<in> set (get_top_words tokens n True).
         w \<in> set tokens \<and> w \<notin> common \<and> c = count_list tokens w \<and> 0 < c"
  proof -
    have "w \<in> set tokens \<and> w \<notin> common \<and> c = count_list tokens w \<and> 0 < c"
      if "(w, c) \<in> set (most_common n (Counter ft))" for w c
    proof -
      from that most_common_subset [of n ft] have "w \<in> set ft" and c: "c = count_list ft w"
        by auto
      then have w: "w \<in> set tokens" "w \<notin> common"
        by (simp_all add: ft_def)
      then have "count_list ft w = count_list tokens w"
        unfolding ft_def by (intro count_list_filter)
      moreover from w have "0 < count_list tokens w"
        by (simp add: count_list_0_iff zero_less_iff_neq_zero)
      ultimately show ?thesis using w c by simp
    qed
    then show ?thesis unfolding r by blast
  qed
  have dist: "distinct (map fst (get_top_words tokens n True))"
    unfolding r by (rule most_common_distinct)
  have ranked: "sorted_wrt (ranks_before (filter (\<lambda>t. t \<notin> common) tokens))
      (get_top_words tokens n True)"
    unfolding r ft_def by (rule most_common_ranked)
  have top: "\<forall>w \<in> set tokens. w \<notin> common \<and> w \<notin> fst ` set (get_top_words tokens n True) \<longrightarrow>
         length (get_top_words tokens n True) = nat n
         \<and> (\<forall>(w', c') \<in> set (get_top_words tokens n True). count_list tokens w \<le> c')"
  proof (intro ballI impI)
    fix w
    assume "w \<in> set tokens"
      and "w \<notin> common \<and> w \<notin> fst ` set (get_top_words tokens n True)"
    then have "w \<in> set ft" and "w \<notin> fst ` set (most_common n (Counter ft))"
      and eq: "count_list ft w = count_list tokens w"
      by (simp_all add: ft_def r [unfolded ft_def] count_list_filter)
    then have "length (most_common n (Counter ft)) = nat n
         \<and> (\<forall>(w', c') \<in> set (most_common n (Counter ft)). count_list ft w \<le> c')"
      by (intro most_common_top)
    then show "length (get_top_words tokens n True) = nat n
         \<and> (\<forall>(w', c') \<in> set (get_top_words tokens n True). count_list tokens w \<le> c')"
      by (simp add: r eq)
  qed
  have example: "get_top_words [''b'', ''a'', ''b'', ''a'', ''c''] 2 True = [(''b'', 2), (''a'', 2)]"
    by (simp add: get_top_words_def common_def Counter_def most_common_def)
  from len members dist ranked top example show ?thesis
    by (intro conjI)
qed

theorem get_top_words_ranking_witness:
  "length (get_top_words [''form'', ''said'', ''good'', ''form''] 1 True) = 1
   \<and> count_list [''form'', ''said'', ''good'', ''form''] ''good'' \<le> 2"
proof -
  let ?t = "[''form'', ''said'', ''good'', ''form'']"
  have r: "get_top_words ?t 1 True = [(''form'', 2)]"
    by (simp add: get_top_words_def common_def Counter_def most_common_def)
  have member: "''good'' \<in> set ?t" by simp
  have left_out: "''good'' \<notin> common \<and> ''good'' \<notin> fst ` set (get_top_words ?t 1 True)"
    by (simp add: r common_def)
  have returned: "(''form'', 2) \<in> set (get_top_words ?t 1 True)"
    by (simp add: r)
  note top = get_top_words_ranking [of ?t 1, THEN conjunct2, THEN conjunct2, THEN conjunct2,
      THEN conjunct2, THEN conjunct1]
  from top member
  have "''good'' \<notin> common \<and> ''good'' \<notin> fst ` set (get_top_words ?t 1 True) \<longrightarrow>
         length (get_top_words ?t 1 True) = nat 1
         \<and> (\<forall>(w', c') \<in> set (get_top_words ?t 1 True). count_list ?t ''good'' \<le> c')"
    by (rule bspec)
  from this left_out
  have both: "length (get_top_words ?t 1 True) = nat 1
         \<and> (\<forall>(w', c') \<in> set (get_top_words ?t 1 True). count_list ?t ''good'' \<le> c')"
    by (rule mp)
  from both have "length (get_top_words ?t 1 True) = 1"
    by simp
  moreover from both returned have "count_list ?t ''good'' \<le> 2"
    by blast
  ultimately show ?thesis by (rule conjI)
qed

section \<open>The comparison matrix\<close>

subsection \<open>Keys of pairs\<close>

lemma contains_prefix:
  "contains (sep @ q) sep"
proof (cases "sep @ q")
  case Nil
  then show ?thesis by simp
next
  case (Cons a list)
  have "take (length sep) (sep @ q) = sep" by simp
  then have "contains (a # list) sep"
    unfolding Cons by simp
  then show ?thesis by (simp only: Cons)
qed

lemma contains_append:
  "contains (p @ sep @ q) sep"
  by (induction p) (simp_all add: contains_prefix)

lemma separator_overlap:
  assumes "'' vs '' @ b = us @ '' vs '' @ d"
  shows "us = [] \<or> (\<exists>us'. us = '' vs'' @ us')"
proof (cases us)
  case Nil
  then show ?thesis by simp
next
  case (Cons u1 r1)
  show ?thesis
  proof (cases r1)
    case Nil
    with Cons assms show ?thesis by simp
  next
    case (Cons u2 r2)
    note r1 = this
    show ?thesis
    proof (cases r2)
      case Nil
      with \<open>us = u1 # r1\<close> r1 assms show ?thesis by simp
    next
      case (Cons u3 r3)
      with \<open>us = u1 # r1\<close> r1 assms show ?thesis by simp
    qed
  qed
qed

lemma pair_key_inject:
  assumes "\<not> contains a '' vs''" and "\<not> contains c '' vs''"
    and "pair_key a b = pair_key c d"
  shows "a = c \<and> b = d"
proof -
  from assms(3) have eq: "a @ ('' vs '' @ b) = c @ ('' vs '' @ d)"
    by (simp add: pair_key_def)
  then obtain us where
    "(a = c @ us \<and> us @ ('' vs '' @ b) = '' vs '' @ d)
     \<or> (a @ us = c \<and> '' vs '' @ b = us @ ('' vs '' @ d))"
    unfolding append_eq_append_conv2 by blast
  then have "us = []"
  proof
    assume h: "a = c @ us \<and> us @ ('' vs '' @ b) = '' vs '' @ d"
    then have "'' vs '' @ d = us @ '' vs '' @ b" by simp
    then have "us = [] \<or> (\<exists>us'. us = '' vs'' @ us')" by (rule separator_overlap)
    moreover have "us \<noteq> '' vs'' @ us'" for us'
    proof
      assume "us = '' vs'' @ us'"
      with h have "a = c @ '' vs'' @ us'" by simp
      then have "contains a '' vs''" by (simp only: contains_append)
      with assms(1) show False by simp
    qed
    ultimately show ?thesis by blast
  next
    assume h: "a @ us = c \<and> '' vs '' @ b = us @ ('' vs '' @ d)"
    then have "'' vs '' @ b = us @ '' vs '' @ d" by simp
    then have "us = [] \<or> (\<exists>us'. us = '' vs'' @ us')" by (rule separator_overlap)
    moreover have "us \<noteq> '' vs'' @ us'" for us'
    proof
      assume "us = '' vs'' @ us'"
      with h have "c = a @ '' vs'' @ us'" by simp
      then have "contains c '' vs''" by (simp only: contains_append)
      with assms(2) show False by simp
    qed
    ultimately show ?thesis by blast
  qed
  with \<open>(a = c @ us \<and> us @ ('' vs '' @ b) = '' vs '' @ d)
     \<or> (a @ us = c \<and> '' vs '' @ b = us @ ('' vs '' @ d))\<close>
  show ?thesis by auto
qed

subsection \<open>Unordered pairs\<close>

lemma unordered_pairs_length_twice:
  "2 * length (unordered_pairs xs) = length xs * (length xs - 1)"
proof (induction xs)
  case Nil
  then show ?case by simp
next
  case (Cons x xs)
  have "length xs * (length xs - 1) + 2 * length xs = Suc (length xs) * length xs"
    by (cases "length xs") simp_all
  with Cons show ?case by simp
qed

lemma unordered_pairs_length:
  "length (unordered_pairs xs) = length xs * (length xs - 1) div 2"
  using unordered_pairs_length_twice [of xs] by simp

lemma unordered_pairs_subset:
  "set (unordered_pairs xs) \<subseteq> set xs \<times> set xs"
  by (induction xs) auto

lemma unordered_pairs_distinct:
  "distinct xs \<Longrightarrow> distinct (unordered_pairs xs)"
proof (induction xs)
  case Nil
  then show ?case by simp
next
  case (Cons x xs)
  have "distinct (map (Pair x) xs)"
    using Cons.prems by (simp add: distinct_map inj_on_def)
  moreover have "set (map (Pair x) xs) \<inter> set (unordered_pairs xs) = {}"
    using Cons.prems unordered_pairs_subset [of xs] by auto
  ultimately show ?case
    using Cons by simp
qed

lemma unordered_pairs_set:
  "set (unordered_pairs xs) = {(xs ! i, xs ! j) | i j. i < j \<and> j < length xs}"
proof (induction xs)
  case Nil
  then show ?case by simp
next
  case (Cons x xs)
  have "{((x # xs) ! i, (x # xs) ! j) | i j. i < j \<and> j < length (x # xs)}
        = Pair x ` set xs \<union> {(xs ! i, xs ! j) | i j. i < j \<and> j < length xs}"
    (is "?L = ?A \<union> ?B")
  proof (intro equalityI subsetI)
    fix p assume "p \<in> ?L"
    then obtain i j where p: "p = ((x # xs) ! i, (x # xs) ! j)" and ij: "i < j" "j < length (x # xs)"
      by blast
    from ij obtain j' where j: "j = Suc j'" "j' < length xs"
      by (cases j) auto
    show "p \<in> ?A \<union> ?B"
    proof (cases i)
      case 0
      with p j show ?thesis by simp
    next
      case (Suc i')
      with p j ij have "p = (xs ! i', xs ! j')" "i' < j'" by simp_all
      with j show ?thesis by blast
    qed
  next
    fix p assume "p \<in> ?A \<union> ?B"
    then show "p \<in> ?L"
    proof
      assume "p \<in> ?A"
      then obtain j where "j < length xs" "p = (x, xs ! j)"
        by (auto simp: in_set_conv_nth)
      then have "p = ((x # xs) ! 0, (x # xs) ! Suc j)" "0 < Suc j" "Suc j < length (x # xs)"
        by simp_all
      then show ?thesis by blast
    next
      assume "p \<in> ?B"
      then obtain i j where "p = (xs ! i, xs ! j)" "i < j" "j < length xs"
        by blast
      then have "p = ((x # xs) ! Suc i, (x # xs) ! Suc j)" "Suc i < Suc j" "Suc j < length (x # xs)"
        by simp_all
      then show ?thesis by blast
    qed
  qed
  with Cons show ?case by simp
qed

subsection \<open>The two loops\<close>

lemma dict_set_fresh:
  "k \<notin> fst ` set d \<Longrightarrow> dict_set d k v = d @ [(k, v)]"
  by (induction d) auto

lemma getitem_tokens:
  assumes "k \<in> fst ` set all_texts"
  shows "\<exists>text_data. getitem all_texts k = Inr text_data
           \<and> tokens_lemmatized text_data = tokens_of all_texts k"
proof -
  from assms obtain text_data where "map_of all_texts k = Some text_data"
    by (metis domD dom_map_of_conv_image_fst)
  then show ?thesis
    by (simp add: getitem_def tokens_of_def)
qed

lemma pairs_with_fresh:
  assumes "id1 \<in> fst ` set all_texts" and "set later \<subseteq> fst ` set all_texts"
    and "distinct (map fst acc @ map (pair_key id1) later)"
  shows "pairs_with all_texts id1 later acc
         = Inr (acc @ map (\<lambda>id2. matrix_entry all_texts (id1, id2)) later)"
  using assms(2,3)
proof (induction later arbitrary: acc)
  case Nil
  then show ?case by simp
next
  case (Cons id2 later)
  from assms(1) obtain data1 where d1: "getitem all_texts id1 = Inr data1"
    "tokens_lemmatized data1 = tokens_of all_texts id1"
    using getitem_tokens by blast
  from Cons.prems(1) obtain data2 where d2: "getitem all_texts id2 = Inr data2"
    "tokens_lemmatized data2 = tokens_of all_texts id2"
    using getitem_tokens [of id2 all_texts] by auto
  let ?e = "matrix_entry all_texts (id1, id2)"
  from Cons.prems(2) have fresh: "pair_key id1 id2 \<notin> fst ` set acc"
    by auto
  then have step: "dict_set acc (pair_key id1 id2)
        (calculate_vocabulary_overlap (tokens_of all_texts id1) (tokens_of all_texts id2))
      = acc @ [?e]"
    by (simp add: dict_set_fresh matrix_entry_def)
  have "distinct (map fst (acc @ [?e]) @ map (pair_key id1) later)"
    using Cons.prems(2) by (auto simp: matrix_entry_def)
  with Cons.prems(1)
  have "pairs_with all_texts id1 later (acc @ [?e])
        = Inr ((acc @ [?e]) @ map (\<lambda>id2. matrix_entry all_texts (id1, id2)) later)"
    by (intro Cons.IH) simp_all
  with d1 d2 step show ?case by simp
qed

lemma pairs_from_fresh:
  assumes "set ids \<subseteq> fst ` set all_texts"
    and "distinct (map fst acc @ map (\<lambda>(id1, id2). pair_key id1 id2) (unordered_pairs ids))"
  shows "pairs_from all_texts ids acc = Inr (acc @ map (matrix_entry all_texts) (unordered_pairs ids))"
  using assms
proof (induction ids arbitrary: acc)
  case Nil
  then show ?case by simp
next
  case (Cons id1 later)
  let ?row = "map (\<lambda>id2. matrix_entry all_texts (id1, id2)) later"
  have keys_row: "map fst ?row = map (pair_key id1) later"
    by (simp add: matrix_entry_def comp_def)
  from Cons.prems(2)
  have all_keys: "distinct (map fst acc @ (map (pair_key id1) later
          @ map (\<lambda>(id1, id2). pair_key id1 id2) (unordered_pairs later)))"
    by (simp add: comp_def)
  then have "distinct (map fst acc @ map (pair_key id1) later)"
    by auto
  with Cons.prems(1)
  have inner: "pairs_with all_texts id1 later acc = Inr (acc @ ?row)"
    by (intro pairs_with_fresh) simp_all
  have "map fst (acc @ ?row) @ map (\<lambda>(id1, id2). pair_key id1 id2) (unordered_pairs later)
        = map fst acc @ (map (pair_key id1) later
          @ map (\<lambda>(id1, id2). pair_key id1 id2) (unordered_pairs later))"
    by (simp only: map_append keys_row append_assoc)
  with all_keys
  have "distinct (map fst (acc @ ?row)
          @ map (\<lambda>(id1, id2). pair_key id1 id2) (unordered_pairs later))"
    by (simp only:)
  with Cons.prems(1)
  have "pairs_from all_texts later (acc @ ?row)
        = Inr ((acc @ ?row) @ map (matrix_entry all_texts) (unordered_pairs later))"
    by (intro Cons.IH) simp_all
  with inner show ?case
    by (simp add: comp_def)
qed

lemma pair_keys_distinct:
  assumes "distinct ids" and "\<forall>k \<in> set ids. \<not> contains k '' vs''"
  shows "distinct (map (\<lambda>(id1, id2). pair_key id1 id2) (unordered_pairs ids))"
proof -
  have "inj_on (\<lambda>(id1, id2). pair_key id1 id2) (set (unordered_pairs ids))"
  proof (rule inj_onI)
    fix p q
    assume p: "p \<in> set (unordered_pairs ids)" and q: "q \<in> set (unordered_pairs ids)"
      and eq: "(case p of (id1, id2) \<Rightarrow> pair_key id1 id2) = (case q of (id1, id2) \<Rightarrow> pair_key id1 id2)"
    obtain a b c d where pq: "p = (a, b)" "q = (c, d)"
      by (cases p, cases q) blast
    with p q unordered_pairs_subset [of ids] have "a \<in> set ids" "c \<in> set ids"
      by auto
    with assms(2) have "\<not> contains a '' vs''" "\<not> contains c '' vs''"
      by simp_all
    moreover from eq pq have "pair_key a b = pair_key c d" by simp
    ultimately have "a = c \<and> b = d" by (rule pair_key_inject)
    with pq show "p = q" by simp
  qed
  with unordered_pairs_distinct [OF assms(1)] show ?thesis
    by (simp add: distinct_map)
qed

lemma pairwise_overlaps_matrix:
  assumes "distinct (map fst all_texts)"
    and "\<forall>k \<in> set (map fst all_texts). \<not> contains k '' vs''"
  shows "pairwise_overlaps all_texts
         = Inr (map (matrix_entry all_texts) (unordered_pairs (map fst all_texts)))"
proof -
  have "distinct (map fst [] @ map (\<lambda>(id1, id2). pair_key id1 id2)
          (unordered_pairs (map fst all_texts)))"
    using pair_keys_distinct [OF assms] by simp
  then have "pairs_from all_texts (map fst all_texts) []
             = Inr ([] @ map (matrix_entry all_texts) (unordered_pairs (map fst all_texts)))"
    by (intro pairs_from_fresh) simp_all
  then show ?thesis
    by (simp add: pairwise_overlaps_def)
qed

lemma tokens_of_nth:
  assumes "distinct (map fst all_texts)" and "i < length all_texts"
  shows "tokens_of all_texts (fst (all_texts ! i)) = tokens_lemmatized (snd (all_texts ! i))"
proof -
  from assms(2) have "(fst (all_texts ! i), snd (all_texts ! i)) \<in> set all_texts"
    by simp
  with assms(1) have "map_of all_texts (fst (all_texts ! i)) = Some (snd (all_texts ! i))"
    by (rule map_of_is_SomeI)
  then show ?thesis by (simp add: tokens_of_def)
qed

text \<open>
  When the identifiers are distinct and none contains the string \<open> vs\<close>, the keys of
  different pairs differ, and the loop returns one entry for each pair.
\<close>

lemma pairwise_overlaps_complete:
  assumes "distinct (map fst all_texts)"
    and "\<forall>k \<in> set (map fst all_texts). \<not> contains k '' vs''"
  shows "\<exists>m. pairwise_overlaps all_texts = Inr m
     \<and> length m = length all_texts * (length all_texts - 1) div 2
     \<and> distinct (map fst m)
     \<and> (\<forall>i j. i < j \<and> j < length all_texts \<longrightarrow>
          map_of m (pair_key (fst (all_texts ! i)) (fst (all_texts ! j)))
          = Some (calculate_vocabulary_overlap (tokens_lemmatized (snd (all_texts ! i)))
                    (tokens_lemmatized (snd (all_texts ! j)))))
     \<and> (\<forall>k \<in> fst ` set m. \<exists>i j. i < j \<and> j < length all_texts
          \<and> fst (all_texts ! i) \<noteq> fst (all_texts ! j)
          \<and> k = pair_key (fst (all_texts ! i)) (fst (all_texts ! j)))"
proof -
  define ids where "ids = map fst all_texts"
  define m where "m = map (matrix_entry all_texts) (unordered_pairs ids)"
  have keys: "map fst m = map (\<lambda>(id1, id2). pair_key id1 id2) (unordered_pairs ids)"
    by (simp add: m_def matrix_entry_def comp_def split_def)
  have result: "pairwise_overlaps all_texts = Inr m"
    unfolding m_def ids_def using assms by (rule pairwise_overlaps_matrix)
  have len: "length m = length all_texts * (length all_texts - 1) div 2"
    by (simp add: m_def ids_def unordered_pairs_length)
  have dist: "distinct (map fst m)"
    unfolding keys ids_def using assms by (rule pair_keys_distinct)
  have entries: "map_of m (pair_key (fst (all_texts ! i)) (fst (all_texts ! j)))
          = Some (calculate_vocabulary_overlap (tokens_lemmatized (snd (all_texts ! i)))
                    (tokens_lemmatized (snd (all_texts ! j))))"
    if "i < j" "j < length all_texts" for i j
  proof -
    from that have "i < j \<and> j < length ids"
      by (simp add: ids_def)
    then have "(ids ! i, ids ! j) \<in> set (unordered_pairs ids)"
      unfolding unordered_pairs_set by blast
    then have "matrix_entry all_texts (ids ! i, ids ! j) \<in> set m"
      by (simp add: m_def)
    with dist have "map_of m (fst (matrix_entry all_texts (ids ! i, ids ! j)))
        = Some (snd (matrix_entry all_texts (ids ! i, ids ! j)))"
      by (intro map_of_is_SomeI) simp_all
    moreover from that have "ids ! i = fst (all_texts ! i)" "ids ! j = fst (all_texts ! j)"
      by (simp_all add: ids_def)
    moreover from that assms(1)
    have "tokens_of all_texts (fst (all_texts ! i)) = tokens_lemmatized (snd (all_texts ! i))"
      and "tokens_of all_texts (fst (all_texts ! j)) = tokens_lemmatized (snd (all_texts ! j))"
      by (simp_all add: tokens_of_nth)
    ultimately show ?thesis
      by (simp add: matrix_entry_def)
  qed
  have origin: "\<exists>i j. i < j \<and> j < length all_texts
          \<and> fst (all_texts ! i) \<noteq> fst (all_texts ! j)
          \<and> k = pair_key (fst (all_texts ! i)) (fst (all_texts ! j))"
    if "k \<in> fst ` set m" for k
  proof -
    from that have "k \<in> set (map fst m)" by simp
    then obtain p where "p \<in> set (unordered_pairs ids)" and k: "k = (case p of (a, b) \<Rightarrow> pair_key a b)"
      unfolding keys by auto
    then obtain i j where ij: "i < j" "j < length ids" and p: "p = (ids ! i, ids ! j)"
      unfolding unordered_pairs_set by blast
    from ij assms(1) have "ids ! i \<noteq> ids ! j"
      unfolding ids_def [symmetric] by (simp add: nth_eq_iff_index_eq)
    with ij p k show ?thesis
      by (intro exI [of _ i] exI [of _ j]) (simp add: ids_def)
  qed
  from result len dist entries origin show ?thesis
    by blast
qed


subsection \<open>The run\<close>

lemma analyze_all_texts_run:
  assumes "txt_files \<noteq> []"
    and "load_texts txt_files ([], [], []) = (all_texts, plato_texts, aristotle_texts)"
    and "compare_author_vocabularies set_iter plato_texts aristotle_texts = Inr c"
    and "pairwise_overlaps all_texts = Inr m"
  shows "\<exists>out. analyze_all_texts set_iter np txt_files = Inr (Some out)
           \<and> plato_vs_aristotle out = c \<and> pairwise_comparisons out = m"
  using assms by (simp add: analyze_all_texts_def Let_def)

text \<open>
  The run ends with \<open>ZeroDivisionError\<close>, before any pair is compared, when no document
  of the first author has a lemmatized token.
\<close>

lemma analyze_all_texts_raises:
  assumes "txt_files \<noteq> []"
    and "load_texts txt_files ([], [], []) = (all_texts, plato_texts, aristotle_texts)"
    and "concat (map (\<lambda>(text_id, text_data). tokens_lemmatized text_data) plato_texts) = []"
  shows "analyze_all_texts set_iter np txt_files = Inl ZeroDivisionError"
proof -
  from assms(3) have "compare_author_vocabularies set_iter plato_texts aristotle_texts
      = Inl ZeroDivisionError"
    by (simp only: compare_author_vocabularies_raises_iff)
  with assms(1,2) show ?thesis
    by (simp add: analyze_all_texts_def Let_def)
qed

lemma load_texts_all:
  "distinct (map fst all_texts @ map fst txt_files) \<Longrightarrow>
   fst (load_texts txt_files (all_texts, plato_texts, aristotle_texts)) = all_texts @ txt_files"
proof (induction txt_files arbitrary: all_texts plato_texts aristotle_texts)
  case Nil
  then show ?case by simp
next
  case (Cons entry txt_files)
  obtain text_id processed where entry: "entry = (text_id, processed)"
    by (cases entry)
  from Cons.prems have fresh: "text_id \<notin> fst ` set all_texts"
    by (auto simp: entry)
  from Cons.prems have "distinct (map fst (all_texts @ [(text_id, processed)]) @ map fst txt_files)"
    by (auto simp: entry)
  then have "fst (load_texts txt_files (all_texts @ [(text_id, processed)], P, R))
             = (all_texts @ [(text_id, processed)]) @ txt_files" for P R
    by (rule Cons.IH)
  with fresh show ?case
    by (simp add: entry dict_set_fresh)
qed

text \<open>
  With distinct identifiers free of \<open> vs\<close> and a first author who has a token, the run
  writes a matrix of \<open>n * (n - 1) / 2\<close> entries with distinct keys.
\<close>

lemma analyze_all_texts_complete:
  assumes "txt_files \<noteq> []" and "distinct (map fst txt_files)"
    and "\<forall>k \<in> set (map fst txt_files). \<not> contains k '' vs''"
    and "load_texts txt_files ([], [], []) = (all_texts, plato_texts, aristotle_texts)"
    and "concat (map (\<lambda>(text_id, text_data). tokens_lemmatized text_data) plato_texts) \<noteq> []"
  shows "\<exists>out. analyze_all_texts set_iter np txt_files = Inr (Some out)
           \<and> length (pairwise_comparisons out) = length txt_files * (length txt_files - 1) div 2
           \<and> distinct (map fst (pairwise_comparisons out))"
proof -
  from assms(2) have "fst (load_texts txt_files ([], [], [])) = [] @ txt_files"
    by (intro load_texts_all) simp
  with assms(4) have all: "all_texts = txt_files" by simp
  from pairwise_overlaps_complete [OF assms(2,3)] obtain m
    where m: "pairwise_overlaps txt_files = Inr m"
      "length m = length txt_files * (length txt_files - 1) div 2" "distinct (map fst m)"
    by blast
  from compare_author_vocabularies_returns [OF assms(5)] obtain c
    where "compare_author_vocabularies set_iter plato_texts aristotle_texts = Inr c"
    by blast
  with assms(1,4) m(1) all obtain out
    where "analyze_all_texts set_iter np txt_files = Inr (Some out)"
      and "pairwise_comparisons out = m"
    using analyze_all_texts_run [of txt_files all_texts plato_texts aristotle_texts set_iter c m np]
    by auto
  with m(2,3) show ?thesis by auto
qed

lemma colliding_files_loaded:
  "load_texts colliding_files ([], [], [])
   = (colliding_files,
      [(''Plato'', text_of_tokens [''justice'']), (''Plato vs Laws'', text_of_tokens [''city''])],
      [(''Laws vs Aristotle'', text_of_tokens [''law'']), (''Aristotle'', text_of_tokens [''virtue''])])"
  by (simp add: colliding_files_def)

lemma colliding_files_overlaps:
  "pairwise_overlaps colliding_files
   = Inr [(''Plato vs Laws vs Aristotle'', calculate_vocabulary_overlap [''city''] [''virtue'']),
          (''Plato vs Plato vs Laws'', calculate_vocabulary_overlap [''justice''] [''city'']),
          (''Plato vs Aristotle'', calculate_vocabulary_overlap [''justice''] [''virtue'']),
          (''Laws vs Aristotle vs Plato vs Laws'', calculate_vocabulary_overlap [''law''] [''city'']),
          (''Laws vs Aristotle vs Aristotle'', calculate_vocabulary_overlap [''law''] [''virtue''])]"
  by (simp add: colliding_files_def pairwise_overlaps_def getitem_def pair_key_def text_of_tokens_def)

text \<open>
  Claim C9 holds of the specification and fails on the code. The four files have
  distinct identifiers and the run reaches the pairwise loop, but the key
  \<open>Plato vs Laws vs Aristotle\<close> is assigned twice: the matrix written has 5 entries, not 6,
  and under that key it holds the overlap of Plato vs Laws with Aristotle, the
  overlap of Plato with Laws vs Aristotle being lost.
\<close>

theorem comparison_matrix_key_collision:
  "distinct (map fst colliding_files)
   \<and> length colliding_files = 4
   \<and> pair_key ''Plato'' ''Laws vs Aristotle'' = pair_key ''Plato vs Laws'' ''Aristotle''
   \<and> (\<exists>out. analyze_all_texts set_iter np colliding_files = Inr (Some out)
         \<and> length (pairwise_comparisons out) = 5
         \<and> map_of (pairwise_comparisons out) ''Plato vs Laws vs Aristotle''
             = Some (calculate_vocabulary_overlap [''city''] [''virtue'']))"
proof -
  have ids: "distinct (map fst colliding_files)" "length colliding_files = 4"
    by (simp_all add: colliding_files_def)
  have key: "pair_key ''Plato'' ''Laws vs Aristotle'' = pair_key ''Plato vs Laws'' ''Aristotle''"
    by (simp add: pair_key_def)
  have "colliding_files \<noteq> []"
    by (simp add: colliding_files_def)
  moreover note colliding_files_loaded
  moreover obtain c where "compare_author_vocabularies set_iter
      [(''Plato'', text_of_tokens [''justice'']), (''Plato vs Laws'', text_of_tokens [''city''])]
      [(''Laws vs Aristotle'', text_of_tokens [''law'']), (''Aristotle'', text_of_tokens [''virtue''])]
      = Inr c"
    using compare_author_vocabularies_returns
      [of "[(''Plato'', text_of_tokens [''justice'']), (''Plato vs Laws'', text_of_tokens [''city''])]"]
    by (auto simp: text_of_tokens_def)
  moreover note colliding_files_overlaps
  ultimately obtain out where "analyze_all_texts set_iter np colliding_files = Inr (Some out)"
    and "pairwise_comparisons out
      = [(''Plato vs Laws vs Aristotle'', calculate_vocabulary_overlap [''city''] [''virtue'']),
         (''Plato vs Plato vs Laws'', calculate_vocabulary_overlap [''justice''] [''city'']),
         (''Plato vs Aristotle'', calculate_vocabulary_overlap [''justice''] [''virtue'']),
         (''Laws vs Aristotle vs Plato vs Laws'', calculate_vocabulary_overlap [''law''] [''city'']),
         (''Laws vs Aristotle vs Aristotle'', calculate_vocabulary_overlap [''law''] [''virtue''])]"
    using analyze_all_texts_run by blast
  then have "\<exists>out. analyze_all_texts set_iter np colliding_files = Inr (Some out)
         \<and> length (pairwise_comparisons out) = 5
         \<and> map_of (pairwise_comparisons out) ''Plato vs Laws vs Aristotle''
             = Some (calculate_vocabulary_overlap [''city''] [''virtue''])"
    by simp
  with ids key show ?thesis by (intro conjI)
qed

end
